theory Spec2Isabelle
  imports Complex_Main
begin

section \<open>Data model of app.py\<close>

text \<open>
  The transcription server of \<^verbatim>\<open>app.py\<close> is embedded with explicit state passing.
  Exceptions are values: a Python exception is an \<open>exn\<close> carrying \<open>str(e)\<close>, and a call that can
  raise returns \<open>exn + 'a\<close> together with the world it leaves behind.

  Strings are \<open>char list\<close>s (bytes); \<open>str.encode("utf-8")\<close> is therefore the identity, and the
  em dash of the summary headers is written as its three UTF-8 bytes.
\<close>

datatype exn = Exn string

fun exn_str :: "exn \<Rightarrow> string" where
  "exn_str (Exn s) = s"

text \<open>
  An audio clip is the sequence of its one-millisecond frames: pydub measures
  (\<open>len(audio)\<close>) and slices (\<open>audio[a:b]\<close>) an \<open>AudioSegment\<close> in milliseconds.
\<close>

type_synonym audio = "nat list"

text \<open>
  Temporary files are named with \<open>uuid.uuid4().hex\<close>; the k-th identifier drawn is the number k,
  so that two draws never collide.  A path is either one of the four temporary-file shapes
  the program builds with f-strings, or any other path given by its text.
\<close>

datatype path =
    Whisper_input nat
  | Whisper_chunk nat nat nat
  | Upload_path nat string
  | Transcript_fallback string
  | Path string

text \<open>A file holds either decodable audio or bytes that no decoder accepts.\<close>

datatype content = Audio audio | Bytes string

record message =
  msg_from :: string
  msg_to :: string
  msg_subject :: string
  msg_body :: string
  msg_attachments :: "(string \<times> string \<times> string \<times> string) list"

record job =
  job_id :: string
  email :: string
  audio_path :: path
  filename :: string
  submitted_at :: nat

text \<open>The effects on the outside world, in the order they happen.\<close>

datatype event =
    Write_attempt path content
  | Remove_attempt path
  | Smtp_attempt message
  | Enqueued string
  | Processing string
  | Task_done

record world =
  fs :: "path \<rightharpoonup> content"
  job_q :: "job list"
  next_uuid :: nat
  worker_alive :: bool
  trace :: "event list"

text \<open>
  The configuration constants and the external collaborators: the Whisper model, the SMTP
  transport, the operating system's refusals to write or remove a file, and the library
  functions whose result no claim depends on.
\<close>

record env =
  SEG_LEN_SECONDS :: int
  CHUNK_THRESHOLD_S :: int
  MAX_UPLOAD_S :: int
  EMAIL_FROM :: string
  whisper :: "path \<Rightarrow> audio \<Rightarrow> exn + string"
  smtp_deliver :: "message \<Rightarrow> exn option"
  write_error :: "path \<Rightarrow> exn option"
  remove_error :: "path \<Rightarrow> exn option"
  format_exc :: "exn \<Rightarrow> string"
  tie_rounds_up :: "nat \<Rightarrow> bool"
  hex :: "nat \<Rightarrow> string"
  splitext_ext :: "string \<Rightarrow> string"
  now :: nat

section \<open>Strings and numbers\<close>

definition is_space :: "char \<Rightarrow> bool" where
  "is_space c = (c \<in> set [CHR 0x09, CHR 0x0A, CHR 0x0B, CHR 0x0C, CHR 0x0D,
                              CHR 0x1C, CHR 0x1D, CHR 0x1E, CHR 0x1F, CHR 0x20])"

text \<open>\<open>str.strip()\<close>, on the ASCII white space.\<close>

definition strip :: "string \<Rightarrow> string" where
  "strip s = rev (dropWhile is_space (rev (dropWhile is_space s)))"

text \<open>\<open>sep.join(xs)\<close>.\<close>

fun str_join :: "string \<Rightarrow> string list \<Rightarrow> string" where
  "str_join sep [] = []"
| "str_join sep [x] = x"
| "str_join sep (x # y # ys) = x @ sep @ str_join sep (y # ys)"

definition digit :: "nat \<Rightarrow> char" where
  "digit d = ''0123456789'' ! d"

text \<open>\<open>str(n)\<close> for a natural number and for an integer.\<close>

function str_nat :: "nat \<Rightarrow> string" where
  "str_nat n = (if n < 10 then [digit n] else str_nat (n div 10) @ [digit (n mod 10)])"
  by pat_completeness auto
termination
  by (relation "measure id") auto

declare str_nat.simps [simp del]

definition str_int :: "int \<Rightarrow> string" where
  "str_int i = (if i < 0 then CHR ''-'' # str_nat (nat (- i)) else str_nat (nat i))"

text \<open>
  \<open>duration_s = len(audio) / 1000.0\<close>: the duration in seconds of a clip of \<open>ms\<close> milliseconds.
  The double is idealised as the exact quotient, which it equals for every comparison with an
  integer threshold at the magnitudes a clip can have.
\<close>

definition duration_s :: "nat \<Rightarrow> real" where
  "duration_s ms = real ms / 1000"

text \<open>
  \<open>f"{duration_s:.1f}"\<close> for \<open>duration_s = ms / 1000.0\<close>: the nearest tenth of a second.  At
  an exact decimal tie (\<open>ms mod 100 = 50\<close>) the outcome depends on the binary expansion of the
  double, which is left to the environment.
\<close>

definition format_1f :: "env \<Rightarrow> nat \<Rightarrow> string" where
  "format_1f env ms =
     (let r = ms mod 100; t = ms div 100;
          tenths = (if r < 50 then t else if 50 < r then t + 1
                    else if tie_rounds_up env ms then t + 1 else t)
      in str_nat (tenths div 10) @ ''.'' @ str_nat (tenths mod 10))"

definition em_dash :: string where
  "em_dash = [CHR 0xE2, CHR 0x80, CHR 0x94]"

definition nl2 :: string where
  "nl2 = [CHR 0x0A, CHR 0x0A]"

text \<open>
  \<open>range(start, stop, step)\<close>: a zero step raises \<open>ValueError\<close>, a positive step counts up
  while below \<open>stop\<close>, a negative step counts down while above it.
\<close>

function range_up :: "int \<Rightarrow> int \<Rightarrow> int \<Rightarrow> int list" where
  "range_up i stop step =
     (if 0 < step \<and> i < stop then i # range_up (i + step) stop step else [])"
  by pat_completeness auto
termination
  by (relation "measure (\<lambda>(i, stop, step). nat (stop - i))") auto

function range_down :: "int \<Rightarrow> int \<Rightarrow> int \<Rightarrow> int list" where
  "range_down i stop step =
     (if step < 0 \<and> stop < i then i # range_down (i + step) stop step else [])"
  by pat_completeness auto
termination
  by (relation "measure (\<lambda>(i, stop, step). nat (i - stop))") auto

declare range_up.simps [simp del]
declare range_down.simps [simp del]

definition py_range :: "int \<Rightarrow> int \<Rightarrow> int \<Rightarrow> exn + int list" where
  "py_range start stop step =
     (if step = 0 then Inl (Exn ''range() arg 3 must not be zero'')
      else if 0 < step then Inr (range_up start stop step)
      else Inr (range_down start stop step))"

section \<open>Files and audio\<close>

text \<open>
  \<open>open(p, "wb").write(c)\<close> and \<open>audio.export(p)\<close>: one attempt to write, recorded in the trace;
  a refused write raises and leaves the file system as it was.
\<close>

definition write_file :: "env \<Rightarrow> world \<Rightarrow> path \<Rightarrow> content \<Rightarrow> (exn + unit) \<times> world" where
  "write_file env w p c =
     (let w1 = w\<lparr>trace := trace w @ [Write_attempt p c]\<rparr>
      in case write_error env p of
           Some e \<Rightarrow> (Inl e, w1)
         | None \<Rightarrow> (Inr (), w1\<lparr>fs := (fs w1)(p \<mapsto> c)\<rparr>))"

text \<open>\<open>os.remove(p)\<close>: raises when the file is missing or the system refuses.\<close>

definition os_remove :: "env \<Rightarrow> world \<Rightarrow> path \<Rightarrow> (exn + unit) \<times> world" where
  "os_remove env w p =
     (let w1 = w\<lparr>trace := trace w @ [Remove_attempt p]\<rparr>
      in case fs w1 p of
           None \<Rightarrow> (Inl (Exn ''FileNotFoundError''), w1)
         | Some c \<Rightarrow>
             (case remove_error env p of
                Some e \<Rightarrow> (Inl e, w1)
              | None \<Rightarrow> (Inr (), w1\<lparr>fs := (fs w1)(p := None)\<rparr>)))"

text \<open>\<open>AudioSegment.from_file(p)\<close>.\<close>

definition from_file :: "world \<Rightarrow> path \<Rightarrow> exn + audio" where
  "from_file w p =
     (case fs w p of
        None \<Rightarrow> Inl (Exn ''FileNotFoundError'')
      | Some (Bytes b) \<Rightarrow> Inl (Exn ''CouldntDecodeError'')
      | Some (Audio a) \<Rightarrow> Inr a)"

text \<open>\<open>audio[start_ms:end_ms]\<close>, for \<open>0 \<le> start_ms \<le> end_ms \<le> len(audio)\<close>.\<close>

definition slice :: "audio \<Rightarrow> int \<Rightarrow> int \<Rightarrow> audio" where
  "slice a start_ms end_ms = take (nat (end_ms - start_ms)) (drop (nat start_ms) a)"

definition ensure_wav_copy :: "env \<Rightarrow> world \<Rightarrow> path \<Rightarrow> (exn + path \<times> nat) \<times> world" where
  "ensure_wav_copy env w in_path =
     (let out_path = Whisper_input (next_uuid w);
          w1 = w\<lparr>next_uuid := Suc (next_uuid w)\<rparr>
      in case from_file w1 in_path of
           Inl e \<Rightarrow> (Inl e, w1)
         | Inr a \<Rightarrow>
             (case write_file env w1 out_path (Audio a) of
                (Inl e, w2) \<Rightarrow> (Inl e, w2)
              | (Inr u, w2) \<Rightarrow> (Inr (out_path, length a), w2)))"

text \<open>
  The loop of \<open>split_audio_to_files\<close> over \<open>enumerate(range(0, duration_ms, seg_len_ms))\<close>;
  an export that raises leaves the loop with the chunks already written in place.
\<close>

fun export_chunks ::
  "env \<Rightarrow> audio \<Rightarrow> int \<Rightarrow> int \<Rightarrow> nat \<Rightarrow> nat \<Rightarrow> int list \<Rightarrow> world \<Rightarrow> (exn + path list) \<times> world" where
  "export_chunks env a duration_ms seg_len_ms base_ts i [] w = (Inr [], w)"
| "export_chunks env a duration_ms seg_len_ms base_ts i (start_ms # rest) w =
     (let end_ms = min (start_ms + seg_len_ms) duration_ms;
          chunk = slice a start_ms end_ms;
          out_path = Whisper_chunk base_ts (next_uuid w) i;
          w1 = w\<lparr>next_uuid := Suc (next_uuid w)\<rparr>
      in case write_file env w1 out_path (Audio chunk) of
           (Inl e, w2) \<Rightarrow> (Inl e, w2)
         | (Inr u, w2) \<Rightarrow>
             (case export_chunks env a duration_ms seg_len_ms base_ts (Suc i) rest w2 of
                (Inl e, w3) \<Rightarrow> (Inl e, w3)
              | (Inr ps, w3) \<Rightarrow> (Inr (out_path # ps), w3)))"

definition split_audio_to_files :: "env \<Rightarrow> world \<Rightarrow> path \<Rightarrow> int \<Rightarrow> (exn + path list) \<times> world" where
  "split_audio_to_files env w p seg_len_s =
     (case from_file w p of
        Inl e \<Rightarrow> (Inl e, w)
      | Inr a \<Rightarrow>
          (let duration_ms = int (length a);
               seg_len_ms = seg_len_s * 1000;
               base_ts = now env
           in case py_range 0 duration_ms seg_len_ms of
                Inl e \<Rightarrow> (Inl e, w)
              | Inr starts \<Rightarrow> export_chunks env a duration_ms seg_len_ms base_ts 0 starts w))"

section \<open>Transcription\<close>

text \<open>
  \<open>model.transcribe(p)\<close>: Whisper decodes the file itself, so a missing or undecodable file
  raises; otherwise the model answers with a text or raises.
\<close>

definition model_transcribe :: "env \<Rightarrow> world \<Rightarrow> path \<Rightarrow> exn + string" where
  "model_transcribe env w p =
     (case from_file w p of Inl e \<Rightarrow> Inl e | Inr a \<Rightarrow> whisper env p a)"

definition transcribe_chunk :: "env \<Rightarrow> world \<Rightarrow> path \<Rightarrow> exn + string" where
  "transcribe_chunk env w p =
     (case model_transcribe env w p of Inl e \<Rightarrow> Inl e | Inr t \<Rightarrow> Inr (strip t))"

definition chunk_error :: "nat \<Rightarrow> exn \<Rightarrow> string" where
  "chunk_error idx e = ''[ERROR transcribing chunk '' @ str_nat idx @ '': '' @ exn_str e @ '']''"

text \<open>
  The loop of \<open>transcribe_file\<close> over \<open>enumerate(out_paths, start=1)\<close>: neither a failing
  transcription nor a failing removal leaves it.
\<close>

fun transcribe_chunks :: "env \<Rightarrow> nat \<Rightarrow> path list \<Rightarrow> world \<Rightarrow> string list \<times> world" where
  "transcribe_chunks env idx [] w = ([], w)"
| "transcribe_chunks env idx (p # ps) w =
     (let txt = (case transcribe_chunk env w p of Inl e \<Rightarrow> chunk_error idx e | Inr t \<Rightarrow> t);
          w1 = snd (os_remove env w p)
      in case transcribe_chunks env (Suc idx) ps w1 of
           (parts, w2) \<Rightarrow> (txt # parts, w2))"

definition chunked_summary :: "env \<Rightarrow> nat \<Rightarrow> nat \<Rightarrow> string" where
  "chunked_summary env n ms =
     ''(Chunked '' @ em_dash @ '' '' @ str_nat n @ '' chunks, original duration ''
       @ format_1f env ms @ ''s)''"

definition single_summary :: "env \<Rightarrow> nat \<Rightarrow> string" where
  "single_summary env ms = ''(Single-pass '' @ em_dash @ '' duration '' @ format_1f env ms @ ''s)''"

text \<open>The two arms of the \<open>if duration_s > CHUNK_THRESHOLD_S\<close> of \<open>transcribe_file\<close>.\<close>

definition chunked_pass :: "env \<Rightarrow> world \<Rightarrow> path \<Rightarrow> nat \<Rightarrow> (exn + string) \<times> world" where
  "chunked_pass env w wav_path ms =
     (case split_audio_to_files env w wav_path (SEG_LEN_SECONDS env) of
        (Inl e, w1) \<Rightarrow> (Inl e, w1)
      | (Inr out_paths, w1) \<Rightarrow>
          (case transcribe_chunks env 1 out_paths w1 of
             (parts, w2) \<Rightarrow>
               (let joined = str_join nl2 (filter (\<lambda>p. p \<noteq> []) parts);
                    summary = chunked_summary env (length out_paths) ms
                in (Inr (summary @ nl2 @ joined), w2))))"

definition single_pass :: "env \<Rightarrow> world \<Rightarrow> path \<Rightarrow> nat \<Rightarrow> (exn + string) \<times> world" where
  "single_pass env w wav_path ms =
     (case model_transcribe env w wav_path of
        Inl e \<Rightarrow> (Inl e, w)
      | Inr t \<Rightarrow> (Inr (single_summary env ms @ nl2 @ strip t), w))"

text \<open>
  The \<open>finally\<close> block of \<open>transcribe_file\<close>, and the cleanup of the worker:
  \<open>try: if os.path.exists(p): os.remove(p) except Exception: pass\<close>.
\<close>

definition remove_if_exists :: "env \<Rightarrow> world \<Rightarrow> path \<Rightarrow> world" where
  "remove_if_exists env w p = (if fs w p \<noteq> None then snd (os_remove env w p) else w)"

definition transcribe_file :: "env \<Rightarrow> world \<Rightarrow> path \<Rightarrow> (exn + string) \<times> world" where
  "transcribe_file env w a_path =
     (case ensure_wav_copy env w a_path of
        (Inl e, w1) \<Rightarrow> (Inl e, w1)
      | (Inr (wav_path, ms), w1) \<Rightarrow>
          (case (if real_of_int (CHUNK_THRESHOLD_S env) < duration_s ms
                 then chunked_pass env w1 wav_path ms
                 else single_pass env w1 wav_path ms) of
             (r, w2) \<Rightarrow> (r, remove_if_exists env w2 wav_path)))"

section \<open>Notification\<close>

definition is_linebreak :: "char \<Rightarrow> bool" where
  "is_linebreak c = (c \<in> set [CHR 0x0A, CHR 0x0B, CHR 0x0C, CHR 0x0D, CHR 0x1C, CHR 0x1D, CHR 0x1E])"

text \<open>\<open>len(value.splitlines()) > 1\<close>: a line break with text after it (\<open>\r\n\<close> is one break).\<close>

definition more_than_one_line :: "string \<Rightarrow> bool" where
  "more_than_one_line v =
     (case dropWhile (\<lambda>c. \<not> is_linebreak c) v of
        [] \<Rightarrow> False
      | b # r \<Rightarrow>
          (if b = CHR 0x0D \<and> r \<noteq> [] \<and> hd r = CHR 0x0A then tl r \<noteq> [] else r \<noteq> []))"

text \<open>
  \<open>msg[name] = value\<close> on an \<open>EmailMessage\<close>: the default policy of the standard library
  refuses a value of more than one line with \<open>ValueError\<close>.  Only this refusal is kept here.
  The library refuses some further values (line breaks outside ASCII, a lone line feed in an
  address): every value that is refused here is refused there, and a message that is built
  here need not be built there.
\<close>

definition header_store_parse :: "string \<Rightarrow> exn + string" where
  "header_store_parse v =
     (if more_than_one_line v
      then Inl (Exn ''Header values may not contain linefeed or carriage return characters'')
      else Inr v)"

text \<open>\<open>maintype, subtype = mime.split("/", 1)\<close>: without a slash the unpacking raises.\<close>

definition split_mime :: "string \<Rightarrow> exn + string \<times> string" where
  "split_mime mime =
     (if CHR ''/'' \<in> set mime
      then Inr (takeWhile (\<lambda>c. c \<noteq> CHR ''/'') mime, tl (dropWhile (\<lambda>c. c \<noteq> CHR ''/'') mime))
      else Inl (Exn ''not enough values to unpack (expected 2, got 1)''))"

fun add_attachments ::
  "(string \<times> string \<times> string) list \<Rightarrow> exn + (string \<times> string \<times> string \<times> string) list" where
  "add_attachments [] = Inr []"
| "add_attachments ((fname, data_bytes, mime) # rest) =
     (case split_mime mime of
        Inl e \<Rightarrow> Inl e
      | Inr (maintype, subtype) \<Rightarrow>
          (case add_attachments rest of
             Inl e \<Rightarrow> Inl e
           | Inr parts \<Rightarrow> Inr ((fname, data_bytes, maintype, subtype) # parts)))"

text \<open>
  Lines 134 to 143 of \<open>send_email_with_fallback\<close>: the message is built before the \<open>try\<close>.
  \<open>set_content\<close> and \<open>add_attachment\<close> are taken to accept every text and payload.
\<close>

definition build_message ::
  "env \<Rightarrow> string \<Rightarrow> string \<Rightarrow> string \<Rightarrow> (string \<times> string \<times> string) list \<Rightarrow> exn + message" where
  "build_message env to_address subject body_text attachments =
     (case header_store_parse (EMAIL_FROM env) of
        Inl e \<Rightarrow> Inl e
      | Inr f \<Rightarrow>
          (case header_store_parse to_address of
             Inl e \<Rightarrow> Inl e
           | Inr t \<Rightarrow>
               (case header_store_parse subject of
                  Inl e \<Rightarrow> Inl e
                | Inr s \<Rightarrow>
                    (case add_attachments attachments of
                       Inl e \<Rightarrow> Inl e
                     | Inr parts \<Rightarrow>
                         Inr \<lparr>msg_from = f, msg_to = t, msg_subject = s,
                              msg_body = body_text, msg_attachments = parts\<rparr>))))"

text \<open>\<open>if fallback_save_path:\<close> holds for a path that is given and is not the empty string.\<close>

fun path_given :: "path option \<Rightarrow> bool" where
  "path_given None = False"
| "path_given (Some p) = (p \<noteq> Path [])"

text \<open>
  The payload of the fallback file:
  \<open>attachments[0][1] if attachments and attachments[0] and attachments[0][1] else body_text\<close>.
\<close>

fun fallback_payload :: "(string \<times> string \<times> string) list \<Rightarrow> string \<Rightarrow> string" where
  "fallback_payload [] body_text = body_text"
| "fallback_payload ((fname, data_bytes, mime) # rest) body_text =
     (if data_bytes \<noteq> [] then data_bytes else body_text)"

definition smtp_error :: "env \<Rightarrow> exn \<Rightarrow> string" where
  "smtp_error env e = ''SMTP send error: '' @ exn_str e @ [CHR 0x0A] @ format_exc env e"

definition send_email_with_fallback ::
  "env \<Rightarrow> world \<Rightarrow> string \<Rightarrow> string \<Rightarrow> string \<Rightarrow> (string \<times> string \<times> string) list \<Rightarrow> path option
     \<Rightarrow> (exn + bool \<times> string option) \<times> world" where
  "send_email_with_fallback env w to_address subject body_text attachments fallback_save_path =
     (case build_message env to_address subject body_text attachments of
        Inl e \<Rightarrow> (Inl e, w)
      | Inr msg \<Rightarrow>
          (let w1 = w\<lparr>trace := trace w @ [Smtp_attempt msg]\<rparr>
           in case smtp_deliver env msg of
                None \<Rightarrow> (Inr (True, None), w1)
              | Some e \<Rightarrow>
                  (let err = smtp_error env e;
                       w2 = (case fallback_save_path of
                               None \<Rightarrow> w1
                             | Some p \<Rightarrow>
                                 if path_given (Some p)
                                 then snd (write_file env w1 p
                                             (Bytes (fallback_payload attachments body_text)))
                                 else w1)
                   in (Inr (False, Some err), w2))))"

section \<open>The worker\<close>

definition EMAIL_SUBJECT :: "string \<Rightarrow> string" where
  "EMAIL_SUBJECT jid = ''Your transcription (job '' @ jid @ '')''"

definition email_body :: "string \<Rightarrow> string \<Rightarrow> string \<Rightarrow> string" where
  "email_body jid original_filename transcript =
     ''Hello,'' @ nl2 @ ''Attached is the transcription for job '' @ jid @ '' (file: ''
       @ original_filename @ '').'' @ nl2 @ ''--- Transcript below ---'' @ nl2 @ transcript
       @ nl2 @ ''Regards,'' @ [CHR 0x0A] @ ''Your Transcription Server''"

definition transcription_failed :: "env \<Rightarrow> exn \<Rightarrow> string" where
  "transcription_failed env e =
     ''[ERROR] Transcription failed: '' @ exn_str e @ nl2 @ format_exc env e"

text \<open>
  The body of the \<open>try ... finally\<close> of \<open>worker_loop\<close> for one job that was taken from the
  queue.  The \<open>try\<close> has no \<open>except\<close>: an exception of the body runs \<open>job_q.task_done()\<close> and
  goes on upwards.
\<close>

definition process_job :: "env \<Rightarrow> world \<Rightarrow> job \<Rightarrow> (exn + unit) \<times> world" where
  "process_job env w j =
     (let w0 = w\<lparr>trace := trace w @ [Processing (job_id j)]\<rparr>
      in case transcribe_file env w0 (audio_path j) of
           (r, w1) \<Rightarrow>
             (let transcript = (case r of Inl e \<Rightarrow> transcription_failed env e | Inr t \<Rightarrow> t);
                  subject = EMAIL_SUBJECT (job_id j);
                  body = email_body (job_id j) (filename j) transcript;
                  fallback_path = Transcript_fallback (job_id j)
              in case send_email_with_fallback env w1 (email j) subject body
                        [(''transcript_'' @ job_id j @ ''.txt'', transcript, ''text/plain'')]
                        (Some fallback_path) of
                   (Inl e, w2) \<Rightarrow> (Inl e, w2\<lparr>trace := trace w2 @ [Task_done]\<rparr>)
                 | (Inr ok_err, w2) \<Rightarrow>
                     (let w3 = remove_if_exists env w2 (audio_path j)
                      in (Inr (), w3\<lparr>trace := trace w3 @ [Task_done]\<rparr>))))"

text \<open>
  One pass through the body of \<open>while not SHUTDOWN_EVENT.is_set()\<close>: \<open>job_q.get\<close> either times
  out on an empty queue (\<open>continue\<close>) or hands over the head of the queue.
\<close>

definition worker_iteration :: "env \<Rightarrow> world \<Rightarrow> (exn + unit) \<times> world" where
  "worker_iteration env w =
     (case job_q w of
        [] \<Rightarrow> (Inr (), w)
      | j # rest \<Rightarrow> process_job env (w\<lparr>job_q := rest\<rparr>) j)"

text \<open>
  \<open>worker_loop\<close>, where the shutdown event is found set after \<open>n\<close> passes.  An exception ends
  the loop, and with it the worker thread.
\<close>

fun worker_loop :: "env \<Rightarrow> nat \<Rightarrow> world \<Rightarrow> (exn + unit) \<times> world" where
  "worker_loop env 0 w = (Inr (), w)"
| "worker_loop env (Suc n) w =
     (case worker_iteration env w of
        (Inl e, w1) \<Rightarrow> (Inl e, w1)
      | (Inr u, w1) \<Rightarrow> worker_loop env n w1)"

section \<open>Submission\<close>

datatype response = JSONResponse string nat | Accepted string string

definition too_long :: "env \<Rightarrow> nat \<Rightarrow> string" where
  "too_long env ms =
     ''Uploaded audio too long ('' @ format_1f env ms @ ''s). Max ''
       @ str_int (MAX_UPLOAD_S env) @ ''s.''"

definition accepted :: "string \<Rightarrow> string" where
  "accepted jid = ''Job accepted (ID: '' @ jid @ ''). Check email (or fallback file).''"

text \<open>Lines 253 to 264 of \<open>submit\<close>: the job is put on the queue and the worker is started.\<close>

definition enqueue :: "env \<Rightarrow> world \<Rightarrow> string \<Rightarrow> path \<Rightarrow> string \<Rightarrow> (exn + response) \<times> world" where
  "enqueue env w em dest fname =
     (let jid = take 12 (hex env (next_uuid w));
          j = \<lparr>job_id = jid, email = em, audio_path = dest, filename = fname,
               submitted_at = now env\<rparr>
      in (Inr (Accepted (accepted jid) jid),
          w\<lparr>next_uuid := Suc (next_uuid w), job_q := job_q w @ [j],
            trace := trace w @ [Enqueued jid], worker_alive := True\<rparr>))"

text \<open>
  The temporary file of an upload:
  \<open>suffix = os.path.splitext(audio.filename)[1] or ".wav"\<close> and
  \<open>dest = <tmpdir>/upload_{uuid}{suffix}\<close>.
\<close>

definition upload_dest :: "env \<Rightarrow> world \<Rightarrow> string \<Rightarrow> path" where
  "upload_dest env w fname =
     (let suffix = (if splitext_ext env fname \<noteq> [] then splitext_ext env fname else ''.wav'')
      in Upload_path (next_uuid w) suffix)"

definition submit :: "env \<Rightarrow> world \<Rightarrow> string \<Rightarrow> string \<Rightarrow> content \<Rightarrow> (exn + response) \<times> world" where
  "submit env w em fname upload =
     (if CHR ''@'' \<notin> set em then (Inr (JSONResponse ''Invalid email'' 400), w)
      else
        (let dest = upload_dest env w fname;
             w1 = w\<lparr>next_uuid := Suc (next_uuid w)\<rparr>
         in case write_file env w1 dest upload of
              (Inl e, w2) \<Rightarrow> (Inl e, w2)
            | (Inr u, w2) \<Rightarrow>
                (case from_file w2 dest of
                   Inr a \<Rightarrow>
                     if real_of_int (MAX_UPLOAD_S env) < duration_s (length a)
                     then (Inr (JSONResponse (too_long env (length a)) 400),
                           snd (os_remove env w2 dest))
                     else enqueue env w2 em dest fname
                 | Inl e \<Rightarrow> enqueue env w2 em dest fname)))"

text \<open>
  The server as a whole: requests and passes of the worker in any order.  The worker thread
  runs only while it is alive; \<open>start_worker\<close> (in \<open>enqueue\<close>) revives it.
\<close>

datatype action = Submit string string content | Tick

fun step :: "env \<Rightarrow> action \<Rightarrow> world \<Rightarrow> world" where
  "step env (Submit em fname upload) w = snd (submit env w em fname upload)"
| "step env Tick w =
     (if worker_alive w
      then (case worker_iteration env w of
              (Inl e, w1) \<Rightarrow> w1\<lparr>worker_alive := False\<rparr>
            | (Inr u, w1) \<Rightarrow> w1)
      else w)"

fun run :: "env \<Rightarrow> action list \<Rightarrow> world \<Rightarrow> world" where
  "run env [] w = w"
| "run env (a # as) w = run env as (step env a w)"

section \<open>Concrete environments\<close>

text \<open>
  An environment in which every collaborator works: the model hears \<open>hello\<close>, the transport
  delivers, the file system accepts every write and removal.  The configuration is the
  default one (20 second segments above 40 seconds, at most 600 seconds).
\<close>

definition env0 :: env where
  "env0 = \<lparr>SEG_LEN_SECONDS = 20, CHUNK_THRESHOLD_S = 40, MAX_UPLOAD_S = 600,
            EMAIL_FROM = ''no-reply@example.com'',
            whisper = (\<lambda>p a. Inr ''hello''),
            smtp_deliver = (\<lambda>m. None),
            write_error = (\<lambda>p. None),
            remove_error = (\<lambda>p. None),
            format_exc = (\<lambda>e. ''Traceback''),
            tie_rounds_up = (\<lambda>n. False),
            hex = str_nat,
            splitext_ext = (\<lambda>s. []),
            now = 0\<rparr>"

definition world0 :: world where
  "world0 = \<lparr>fs = Map.empty, job_q = [], next_uuid = 0, worker_alive = False, trace = []\<rparr>"

text \<open>An address that passes the check of \<open>submit\<close> (it has an \<open>@\<close>) and spans two lines.\<close>

definition two_line_address :: string where
  "two_line_address = ''a@b'' @ [CHR 0x0A] @ ''c''"

text \<open>Two submissions, the first with the two-line address, before the worker has run.\<close>

definition two_submissions :: world where
  "two_submissions = run env0 [Submit two_line_address ''a.wav'' (Audio [1, 2, 3]),
                               Submit ''c@d'' ''b.wav'' (Audio [4, 5, 6])] world0"

text \<open>The same environment with a transport that refuses every connection.\<close>

definition env_smtp_down :: env where
  "env_smtp_down = env0\<lparr>smtp_deliver := (\<lambda>m. Some (Exn ''Connection refused''))\<rparr>"

text \<open>A world with one stored recording of three milliseconds.\<close>

definition world_recording :: world where
  "world_recording = world0\<lparr>fs := [Path ''in.mp3'' \<mapsto> Audio [1, 2, 3]]\<rparr>"

text \<open>The model raises on every call.\<close>

definition env_whisper_down :: env where
  "env_whisper_down = env0\<lparr>whisper := (\<lambda>p a. Inl (Exn ''CUDA out of memory''))\<rparr>"

text \<open>The operating system refuses to remove working files.\<close>

definition env_locked :: env where
  "env_locked = env0\<lparr>remove_error :=
     (\<lambda>p. case p of Whisper_input u \<Rightarrow> Some (Exn ''PermissionError'') | _ \<Rightarrow> None)\<rparr>"

section \<open>Observations on the trace\<close>

text \<open>The identifiers of the jobs put on the queue, and of the jobs the worker began, in order.\<close>

fun enqueued_ids :: "event list \<Rightarrow> string list" where
  "enqueued_ids [] = []"
| "enqueued_ids (Enqueued j # es) = j # enqueued_ids es"
| "enqueued_ids (e # es) = enqueued_ids es"

fun processing_ids :: "event list \<Rightarrow> string list" where
  "processing_ids [] = []"
| "processing_ids (Processing j # es) = j # processing_ids es"
| "processing_ids (e # es) = processing_ids es"

text \<open>The events that mark the beginning and the end of the work on a job.\<close>

fun is_mark :: "event \<Rightarrow> bool" where
  "is_mark (Processing j) = True"
| "is_mark Task_done = True"
| "is_mark e = False"

text \<open>The events that concern jobs at all; every other event is an effect on files or mail.\<close>

fun is_job_event :: "event \<Rightarrow> bool" where
  "is_job_event (Enqueued j) = True"
| "is_job_event (Processing j) = True"
| "is_job_event Task_done = True"
| "is_job_event e = False"

text \<open>Two worlds with the same queue and the same job events.\<close>

definition same_jobs :: "world \<Rightarrow> world \<Rightarrow> bool" where
  "same_jobs w w' =
     (job_q w' = job_q w \<and> filter is_job_event (trace w') = filter is_job_event (trace w))"

section \<open>What the chunked branch is expected to produce\<close>

text \<open>
  The k-th window of \<open>seg_len_ms\<close> milliseconds of a recording: what the recording holds
  from \<open>k * seg_len_ms\<close> on, up to \<open>seg_len_ms\<close> milliseconds of it.
\<close>

definition window :: "audio \<Rightarrow> int \<Rightarrow> nat \<Rightarrow> audio" where
  "window a seg_len_ms k = take (nat seg_len_ms) (drop (k * nat seg_len_ms) a)"

text \<open>
  The text that stands for a segment in the transcript: the stripped answer of the model, or
  the error marker with the segment's index (counted from 1) when the model raises.
\<close>

definition chunk_text :: "env \<Rightarrow> nat \<Rightarrow> path \<Rightarrow> audio \<Rightarrow> string" where
  "chunk_text env idx p c =
     (case whisper env p c of Inl e \<Rightarrow> chunk_error idx e | Inr t \<Rightarrow> strip t)"

text \<open>
  The file of the k-th segment, when \<open>transcribe_file\<close> is entered with \<open>u\<close> as the next
  identifier: one identifier goes to the working file, the next ones to the segments.
\<close>

definition chunk_path :: "env \<Rightarrow> nat \<Rightarrow> nat \<Rightarrow> path" where
  "chunk_path env u k = Whisper_chunk (now env) (Suc u + k) k"

text \<open>The length of the audio stored in a file, if the file holds audio.\<close>

definition stored_length :: "world \<Rightarrow> path \<Rightarrow> nat option" where
  "stored_length w q = (case fs w q of Some (Audio c) \<Rightarrow> Some (length c) | _ \<Rightarrow> None)"

text \<open>Worlds with one stored recording of 90 seconds, and of 50 seconds.\<close>

definition world_ninety :: world where
  "world_ninety = world0\<lparr>fs := [Path ''in.mp3'' \<mapsto> Audio (replicate 90000 0)]\<rparr>"




section \<open>The server as threads\<close>

text \<open>
  Where a worker thread stands in \<open>worker_loop\<close>: at \<open>job_q.get\<close>; holding a job, before
  \<open>transcribe_file\<close>, before \<open>send_email_with_fallback\<close> (with the transcript), before the
  cleanup of the upload, or before the \<open>job_q.task_done()\<close> of the \<open>finally\<close> block (with the
  exception that is on its way out of the loop, if there is one); or over, once an exception
  has left the loop.
\<close>

datatype pc =
    Polling
  | Transcribing job
  | Notifying job string
  | Cleaning job
  | Finishing job "exn option"
  | Ended

text \<open>
  One step of a worker thread on the shared state.  The steps are the statements of
  \<open>worker_loop\<close> that touch the queue, the files or the mail; between two of them any other
  thread may run.  Taking a job and announcing it (lines 176 to 185) is one step: nothing
  shared is touched in between.
\<close>

fun worker_step :: "env \<Rightarrow> world \<Rightarrow> pc \<Rightarrow> world \<times> pc" where
  "worker_step env w Polling =
     (case job_q w of
        [] \<Rightarrow> (w, Polling)
      | j # rest \<Rightarrow> (w\<lparr>job_q := rest, trace := trace w @ [Processing (job_id j)]\<rparr>, Transcribing j))"
| "worker_step env w (Transcribing j) =
     (case transcribe_file env w (audio_path j) of
        (r, w1) \<Rightarrow>
          (w1, Notifying j (case r of Inl e \<Rightarrow> transcription_failed env e | Inr t \<Rightarrow> t)))"
| "worker_step env w (Notifying j transcript) =
     (case send_email_with_fallback env w (email j) (EMAIL_SUBJECT (job_id j))
             (email_body (job_id j) (filename j) transcript)
             [(''transcript_'' @ job_id j @ ''.txt'', transcript, ''text/plain'')]
             (Some (Transcript_fallback (job_id j))) of
        (Inl e, w1) \<Rightarrow> (w1, Finishing j (Some e))
      | (Inr ok_err, w1) \<Rightarrow> (w1, Cleaning j))"
| "worker_step env w (Cleaning j) = (remove_if_exists env w (audio_path j), Finishing j None)"
| "worker_step env w (Finishing j None) = (w\<lparr>trace := trace w @ [Task_done]\<rparr>, Polling)"
| "worker_step env w (Finishing j (Some e)) = (w\<lparr>trace := trace w @ [Task_done]\<rparr>, Ended)"
| "worker_step env w Ended = (w, Ended)"

text \<open>
  The process: the shared state, every thread that \<open>start_worker\<close> has started, and the global
  \<open>WORKER_THREAD\<close>, which is \<open>None\<close> or the index of the thread started last.  (The flag
  \<open>worker_alive\<close> of the shared state is not read here: the threads themselves are kept.)
\<close>

record server =
  shared :: world
  threads :: "pc list"
  WORKER_THREAD :: "nat option"

text \<open>\<open>Thread.is_alive()\<close>: from \<open>start()\<close> until \<open>worker_loop\<close> is left.\<close>

definition is_alive :: "server \<Rightarrow> nat \<Rightarrow> bool" where
  "is_alive s i = (i < length (threads s) \<and> threads s ! i \<noteq> Ended)"

definition start_worker :: "server \<Rightarrow> server" where
  "start_worker s =
     (if (case WORKER_THREAD s of None \<Rightarrow> True | Some i \<Rightarrow> \<not> is_alive s i)
      then s\<lparr>threads := threads s @ [Polling], WORKER_THREAD := Some (length (threads s))\<rparr>
      else s)"

text \<open>
  What can happen next: a request to \<open>/api/submit\<close> is served, or one of the threads takes
  a step.  A request is served in one piece (\<open>submit\<close> runs on the event loop and does not
  await between storing the upload and its return); it answers \<open>Accepted\<close> exactly when it
  went through \<open>job_q.put(job)\<close> and \<open>start_worker()\<close>.
\<close>

datatype move = Request string string content | Thread nat

fun server_step :: "env \<Rightarrow> move \<Rightarrow> server \<Rightarrow> server" where
  "server_step env (Request em fname upload) s =
     (case submit env (shared s) em fname upload of
        (Inr (Accepted msg jid), w) \<Rightarrow> start_worker (s\<lparr>shared := w\<rparr>)
      | (r, w) \<Rightarrow> s\<lparr>shared := w\<rparr>)"
| "server_step env (Thread i) s =
     (if i < length (threads s)
      then (case worker_step env (shared s) (threads s ! i) of
              (w, pc') \<Rightarrow> s\<lparr>shared := w, threads := (threads s)[i := pc']\<rparr>)
      else s)"

fun serve :: "env \<Rightarrow> move list \<Rightarrow> server \<Rightarrow> server" where
  "serve env [] s = s"
| "serve env (m # ms) s = serve env ms (server_step env m s)"

text \<open>The process after the module is loaded: an empty queue, no worker thread.\<close>

definition boot :: "world \<Rightarrow> server" where
  "boot w = \<lparr>shared = w\<lparr>job_q := [], trace := []\<rparr>, threads = [], WORKER_THREAD = None\<rparr>"

text \<open>The job a thread holds, and the jobs held by the threads of a server.\<close>

fun current :: "pc \<Rightarrow> job list" where
  "current Polling = []"
| "current (Transcribing j) = [j]"
| "current (Notifying j t) = [j]"
| "current (Cleaning j) = [j]"
| "current (Finishing j x) = [j]"
| "current Ended = []"

definition busy :: "server \<Rightarrow> job list" where
  "busy s = concat (map current (threads s))"

text \<open>The marks of a run of jobs that were begun and finished one after the other.\<close>

definition one_by_one :: "string list \<Rightarrow> event list" where
  "one_by_one ids = concat (map (\<lambda>jid. [Processing jid, Task_done]) ids)"

text \<open>
  The state of affairs that every step keeps: every thread but the one that \<open>WORKER_THREAD\<close>
  names is over; the jobs begun, followed by the jobs in the queue, are the jobs enqueued, in
  the order of their enqueueing; and the jobs begun are jobs finished one by one, followed by
  the jobs that threads hold.
\<close>

definition orderly :: "server \<Rightarrow> bool" where
  "orderly s =
     ((\<forall>k<length (threads s). WORKER_THREAD s \<noteq> Some k \<longrightarrow> threads s ! k = Ended)
      \<and> (\<forall>i. WORKER_THREAD s = Some i \<longrightarrow> i < length (threads s))
      \<and> processing_ids (trace (shared s)) @ map job_id (job_q (shared s))
          = enqueued_ids (trace (shared s))
      \<and> (\<exists>finished.
            processing_ids (trace (shared s)) = finished @ map job_id (busy s)
            \<and> filter is_mark (trace (shared s))
                = one_by_one finished @ map (\<lambda>j. Processing (job_id j)) (busy s)))"

text \<open>
  A thread is due \<open>n\<close> steps when \<open>n\<close> more steps bring it to the end of the job it holds and
  no further: back to \<open>job_q.get\<close>, or out of the loop (a thread that is over takes idle
  steps).
\<close>

fun due :: "pc \<Rightarrow> nat \<Rightarrow> bool" where
  "due Polling n = (n = 0)"
| "due (Transcribing j) n = (n = 4)"
| "due (Notifying j t) n = (n = 3)"
| "due (Cleaning j) n = (n = 2)"
| "due (Finishing j None) n = (n = 1)"
| "due (Finishing j (Some e)) n = (n = 2)"
| "due Ended n = (n \<le> 1)"

text \<open>The threads that take the steps of a schedule, in order, and the count of the steps of one.\<close>

fun thread_steps :: "move list \<Rightarrow> nat list" where
  "thread_steps [] = []"
| "thread_steps (Request em fname upload # sched) = thread_steps sched"
| "thread_steps (Thread k # sched) = k # thread_steps sched"

definition steps_of :: "nat \<Rightarrow> move list \<Rightarrow> nat" where
  "steps_of i sched = length (filter (\<lambda>m. m = Thread i) sched)"

text \<open>
  Two requests one after the other, and a schedule in which a third request arrives while
  the first job is being transcribed.
\<close>

definition two_requests :: "move list" where
  "two_requests = [Request ''a@b'' ''a.wav'' (Audio [1, 2, 3]),
                   Request ''c@d'' ''b.wav'' (Audio [4, 5, 6])]"

definition one_job_through :: "move list" where
  "one_job_through = [Thread 0, Request ''e@f'' ''c.wav'' (Audio [7]),
                      Thread 0, Thread 0, Thread 0, Thread 0]"

section \<open>The dispatcher can raise\<close>

text \<open>
  C6.  The claim is that \<open>send_email_with_fallback\<close> never raises, whatever its arguments.
  The message is built before the \<open>try\<close> block: a destination address of two lines makes
  \<open>msg["To"] = to_address\<close> raise \<open>ValueError\<close>, and a media type without a slash makes the
  unpacking of \<open>mime.split("/", 1)\<close> raise \<open>ValueError\<close>.  Both leave the function as
  exceptions, with no delivery outcome.
\<close>

theorem send_email_with_fallback_raises:
  "fst (send_email_with_fallback env0 world0 two_line_address ''subject'' ''hello'' [] None)
     = Inl (Exn ''Header values may not contain linefeed or carriage return characters'')
   \<and> fst (send_email_with_fallback env0 world0 ''a@b'' ''subject'' ''hello''
            [(''t.txt'', ''payload'', ''textplain'')] (Some (Path ''fallback.txt'')))
     = Inl (Exn ''not enough values to unpack (expected 2, got 1)'')"
  by (simp add: send_email_with_fallback_def build_message_def header_store_parse_def
      env0_def split_mime_def more_than_one_line_def is_linebreak_def two_line_address_def)

section \<open>A job can end the worker loop\<close>

text \<open>
  C1.  The claim is that no failure of a job leaves the worker loop.  The \<open>try\<close> of
  \<open>worker_loop\<close> has a \<open>finally\<close> and no \<open>except\<close>, and \<open>send_email_with_fallback\<close> builds
  its message outside its own \<open>try\<close>.  When the first of two submitted jobs has an address
  of two lines, the \<open>ValueError\<close> of \<open>msg["To"] = to_address\<close> leaves the loop: the worker
  ends with the exception, and the second job stays in the queue and is never begun.
\<close>

theorem worker_loop_ended_by_job:
  "fst (worker_loop env0 5 two_submissions)
     = Inl (Exn ''Header values may not contain linefeed or carriage return characters'')
   \<and> map job_id (job_q (snd (worker_loop env0 5 two_submissions))) = [''3'']
   \<and> Processing ''3'' \<notin> set (trace (snd (worker_loop env0 5 two_submissions)))"
  by code_simp

section \<open>The fallback write\<close>

lemma trace_write_file: "trace (snd (write_file env w p c)) = trace w @ [Write_attempt p c]"
  by (simp add: write_file_def Let_def split: option.splits)

text \<open>
  C4, as amended.  When the message could be built, the transport fails and a fallback path
  other than the empty string is given, the dispatcher returns the failure outcome
  \<open>(False, err)\<close> and its effects are the one attempt to send followed by exactly one attempt
  to write the fallback file.  What is written is the payload of the first attachment when
  there is one and its payload is not empty, and the body text otherwise.  Nothing is assumed
  about the success of the write: a refused write changes neither the outcome nor the count.
\<close>

theorem fallback_written_once:
  assumes "build_message env to_address subject body_text attachments = Inr msg"
    and "smtp_deliver env msg = Some e"
    and "p \<noteq> Path []"
  shows "fst (send_email_with_fallback env w to_address subject body_text attachments (Some p))
           = Inr (False, Some (smtp_error env e))
       \<and> trace (snd (send_email_with_fallback env w to_address subject body_text attachments (Some p)))
           = trace w @ [Smtp_attempt msg,
                Write_attempt p (Bytes (case attachments of
                                          [] \<Rightarrow> body_text
                                        | (fname, data_bytes, mime) # rest \<Rightarrow>
                                            if data_bytes = [] then body_text else data_bytes))]"
proof -
  have payload: "fallback_payload attachments body_text =
      (case attachments of [] \<Rightarrow> body_text
       | (fname, data_bytes, mime) # rest \<Rightarrow> if data_bytes = [] then body_text else data_bytes)"
    by (cases attachments) auto
  show ?thesis
    using assms by (simp add: send_email_with_fallback_def trace_write_file payload)
qed

theorem fallback_written_once_witness:
  "build_message env_smtp_down ''a@b'' ''subject'' ''hello'' [(''t.txt'', ''payload'', ''text/plain'')]
     = Inr \<lparr>msg_from = ''no-reply@example.com'', msg_to = ''a@b'', msg_subject = ''subject'',
            msg_body = ''hello'', msg_attachments = [(''t.txt'', ''payload'', ''text'', ''plain'')]\<rparr>
   \<and> smtp_deliver env_smtp_down
        \<lparr>msg_from = ''no-reply@example.com'', msg_to = ''a@b'', msg_subject = ''subject'',
            msg_body = ''hello'', msg_attachments = [(''t.txt'', ''payload'', ''text'', ''plain'')]\<rparr>
       = Some (Exn ''Connection refused'')
   \<and> Path ''fallback.txt'' \<noteq> Path []
   \<and> fst (send_email_with_fallback env_smtp_down world0 ''a@b'' ''subject'' ''hello''
             [(''t.txt'', ''payload'', ''text/plain'')] (Some (Path ''fallback.txt'')))
       = Inr (False, Some (smtp_error env_smtp_down (Exn ''Connection refused'')))
   \<and> trace (snd (send_email_with_fallback env_smtp_down world0 ''a@b'' ''subject'' ''hello''
             [(''t.txt'', ''payload'', ''text/plain'')] (Some (Path ''fallback.txt''))))
       = [Smtp_attempt \<lparr>msg_from = ''no-reply@example.com'', msg_to = ''a@b'', msg_subject = ''subject'',
            msg_body = ''hello'', msg_attachments = [(''t.txt'', ''payload'', ''text'', ''plain'')]\<rparr>,
          Write_attempt (Path ''fallback.txt'') (Bytes ''payload'')]"
proof -
  have b: "build_message env_smtp_down ''a@b'' ''subject'' ''hello'' [(''t.txt'', ''payload'', ''text/plain'')]
     = Inr \<lparr>msg_from = ''no-reply@example.com'', msg_to = ''a@b'', msg_subject = ''subject'',
            msg_body = ''hello'', msg_attachments = [(''t.txt'', ''payload'', ''text'', ''plain'')]\<rparr>"
    by (simp add: build_message_def header_store_parse_def more_than_one_line_def is_linebreak_def
        split_mime_def env_smtp_down_def env0_def)
  have s: "smtp_deliver env_smtp_down
        \<lparr>msg_from = ''no-reply@example.com'', msg_to = ''a@b'', msg_subject = ''subject'',
            msg_body = ''hello'', msg_attachments = [(''t.txt'', ''payload'', ''text'', ''plain'')]\<rparr>
       = Some (Exn ''Connection refused'')"
    by (simp add: env_smtp_down_def)
  have p: "Path ''fallback.txt'' \<noteq> Path []" by simp
  show ?thesis
    using fallback_written_once [OF b s p, of world0] b s by (simp add: world0_def)
qed

text \<open>
  The claim as stated fails where the first attachment has an empty payload: the guard
  \<open>attachments[0][1]\<close> is then false and the body text is written, not the (empty) payload
  of the attachment that exists.
\<close>

theorem fallback_skips_empty_attachment:
  "Write_attempt (Path ''fallback.txt'') (Bytes ''hello'')
     \<in> set (trace (snd (send_email_with_fallback env_smtp_down world0 ''a@b'' ''subject'' ''hello''
                 [(''t.txt'', [], ''text/plain'')] (Some (Path ''fallback.txt'')))))
   \<and> Write_attempt (Path ''fallback.txt'') (Bytes [])
     \<notin> set (trace (snd (send_email_with_fallback env_smtp_down world0 ''a@b'' ''subject'' ''hello''
                 [(''t.txt'', [], ''text/plain'')] (Some (Path ''fallback.txt'')))))"
  by code_simp

section \<open>Submission: the duration ceiling\<close>

lemma write_file_ok:
  "write_error env p = None \<Longrightarrow>
   write_file env w p c
     = (Inr (), w\<lparr>trace := trace w @ [Write_attempt p c], fs := (fs w)(p \<mapsto> c)\<rparr>)"
  by (simp add: write_file_def Let_def)

lemma job_q_os_remove: "job_q (snd (os_remove env w p)) = job_q w"
  by (simp add: os_remove_def Let_def split: option.splits)

text \<open>
  C5.  An upload that was stored and decodes to audio longer than \<open>MAX_UPLOAD_S\<close> seconds is
  answered with a rejection of status 400 (for the duration, or for the address when that
  is malformed, which is checked first), and the queue is left as it was: no job is created.
\<close>

theorem submit_rejects_long_upload:
  assumes "write_error env (upload_dest env w fname) = None"
    and "real_of_int (MAX_UPLOAD_S env) < duration_s (length a)"
  shows "fst (submit env w em fname (Audio a))
           = Inr (JSONResponse (if CHR ''@'' \<in> set em then too_long env (length a)
                                else ''Invalid email'') 400)
       \<and> job_q (snd (submit env w em fname (Audio a))) = job_q w"
  using assms
  by (simp add: submit_def Let_def write_file_ok from_file_def job_q_os_remove)

theorem submit_rejects_long_upload_witness:
  "write_error env0 (upload_dest env0 world0 ''a.wav'') = None
   \<and> real_of_int (MAX_UPLOAD_S env0) < duration_s (length (replicate 600001 (0::nat)))
   \<and> fst (submit env0 world0 ''a@b'' ''a.wav'' (Audio (replicate 600001 0)))
        = Inr (JSONResponse ''Uploaded audio too long (600.0s). Max 600s.'' 400)
   \<and> job_q (snd (submit env0 world0 ''a@b'' ''a.wav'' (Audio (replicate 600001 0)))) = []"
proof -
  have w: "write_error env0 (upload_dest env0 world0 ''a.wav'') = None"
    by (simp add: env0_def)
  have d: "real_of_int (MAX_UPLOAD_S env0) < duration_s (length (replicate 600001 (0::nat)))"
    by (simp add: env0_def duration_s_def)
  have s: "str_nat 600 = ''600''" "str_nat 0 = ''0''"
    by code_simp+
  have t: "too_long env0 600001 = ''Uploaded audio too long (600.0s). Max 600s.''"
    by (simp add: too_long_def format_1f_def str_int_def s env0_def)
  show ?thesis
    using submit_rejects_long_upload [OF w d, of "''a@b''"] w d t by (simp add: world0_def)
qed

section \<open>Submission: an upload that cannot be decoded\<close>

lemma transcribe_file_undecodable:
  "fs w p = Some (Bytes b) \<Longrightarrow> fst (transcribe_file env w p) = Inl (Exn ''CouldntDecodeError'')"
  by (simp add: transcribe_file_def ensure_wav_copy_def from_file_def Let_def)

text \<open>
  C10.  When the stored upload cannot be decoded, \<open>submit\<close> swallows the exception of the
  duration guard and goes on: the request is accepted, the job is appended to the queue with
  the stored file as its audio path, the file stays in place, and \<open>transcribe_file\<close> on that
  path fails in \<open>ensure_wav_copy\<close>.
\<close>

theorem submit_enqueues_undecodable_upload:
  assumes "CHR ''@'' \<in> set em"
    and "write_error env (upload_dest env w fname) = None"
  shows "fst (submit env w em fname (Bytes b))
           = Inr (Accepted (accepted (take 12 (hex env (Suc (next_uuid w)))))
                           (take 12 (hex env (Suc (next_uuid w)))))
       \<and> job_q (snd (submit env w em fname (Bytes b)))
           = job_q w @ [\<lparr>job_id = take 12 (hex env (Suc (next_uuid w))), email = em,
                          audio_path = upload_dest env w fname, filename = fname,
                          submitted_at = now env\<rparr>]
       \<and> fs (snd (submit env w em fname (Bytes b))) (upload_dest env w fname) = Some (Bytes b)
       \<and> fst (transcribe_file env (snd (submit env w em fname (Bytes b))) (upload_dest env w fname))
           = Inl (Exn ''CouldntDecodeError'')"
proof -
  have s: "submit env w em fname (Bytes b)
      = enqueue env (w\<lparr>next_uuid := Suc (next_uuid w),
                        trace := trace w @ [Write_attempt (upload_dest env w fname) (Bytes b)],
                        fs := (fs w)(upload_dest env w fname \<mapsto> Bytes b)\<rparr>)
          em (upload_dest env w fname) fname"
    using assms by (simp add: submit_def Let_def write_file_ok from_file_def)
  have f: "fs (snd (submit env w em fname (Bytes b))) (upload_dest env w fname) = Some (Bytes b)"
    by (simp add: s enqueue_def Let_def)
  show ?thesis
    using f transcribe_file_undecodable [OF f] by (simp add: s enqueue_def Let_def)
qed

theorem submit_enqueues_undecodable_upload_witness:
  "CHR ''@'' \<in> set ''a@b''
   \<and> write_error env0 (upload_dest env0 world0 ''notes.txt'') = None
   \<and> fst (submit env0 world0 ''a@b'' ''notes.txt'' (Bytes ''not audio''))
        = Inr (Accepted ''Job accepted (ID: 1). Check email (or fallback file).'' ''1'')
   \<and> job_q (snd (submit env0 world0 ''a@b'' ''notes.txt'' (Bytes ''not audio'')))
        = [\<lparr>job_id = ''1'', email = ''a@b'', audio_path = Upload_path 0 ''.wav'',
             filename = ''notes.txt'', submitted_at = 0\<rparr>]
   \<and> fs (snd (submit env0 world0 ''a@b'' ''notes.txt'' (Bytes ''not audio''))) (Upload_path 0 ''.wav'')
        = Some (Bytes ''not audio'')
   \<and> fst (transcribe_file env0 (snd (submit env0 world0 ''a@b'' ''notes.txt'' (Bytes ''not audio'')))
             (Upload_path 0 ''.wav''))
        = Inl (Exn ''CouldntDecodeError'')"
proof -
  have a: "CHR ''@'' \<in> set ''a@b''" by simp
  have w: "write_error env0 (upload_dest env0 world0 ''notes.txt'') = None"
    by (simp add: env0_def)
  have u: "upload_dest env0 world0 ''notes.txt'' = Upload_path 0 ''.wav''"
    by (simp add: upload_dest_def env0_def world0_def)
  have h: "hex env0 (Suc (next_uuid world0)) = ''1''"
    by (simp add: env0_def world0_def str_nat.simps digit_def)
  have n: "now env0 = 0" "job_q world0 = []"
    by (simp_all add: env0_def world0_def)
  show ?thesis
    using submit_enqueues_undecodable_upload [OF a w, of "''not audio''"] a w
    by (simp add: u h n accepted_def)
qed

section \<open>Cleanup of the working file\<close>

text \<open>
  The working file is \<open>whisper_input_<uuid>.wav\<close>, the segments are
  \<open>whisper_chunk_<ts>_<uuid>_<i>.wav\<close>: neither the split nor the loop over the segments
  writes or removes the working file.
\<close>

lemma fs_os_remove_other: "q \<noteq> p \<Longrightarrow> fs (snd (os_remove env w p)) q = fs w q"
  by (simp add: os_remove_def Let_def split: option.splits)

lemma fs_write_file_other: "q \<noteq> p \<Longrightarrow> fs (snd (write_file env w p c)) q = fs w q"
  by (simp add: write_file_def Let_def split: option.splits)

lemma export_chunks_input:
  "fs (snd (export_chunks env a d L ts i starts w)) (Whisper_input u) = fs w (Whisper_input u)
   \<and> (\<forall>ps. fst (export_chunks env a d L ts i starts w) = Inr ps \<longrightarrow> Whisper_input u \<notin> set ps)"
proof (induction starts arbitrary: i w)
  case Nil
  then show ?case by simp
next
  case (Cons s starts)
  let ?w1 = "w\<lparr>next_uuid := Suc (next_uuid w)\<rparr>"
  let ?p = "Whisper_chunk ts (next_uuid w) i"
  let ?c = "Audio (slice a s (min (s + L) d))"
  obtain r w2 where wf: "write_file env ?w1 ?p ?c = (r, w2)" by (metis surj_pair)
  have "fs (snd (write_file env ?w1 ?p ?c)) (Whisper_input u) = fs ?w1 (Whisper_input u)"
    by (rule fs_write_file_other) simp
  then have f2: "fs w2 (Whisper_input u) = fs w (Whisper_input u)" by (simp add: wf)
  show ?case
  proof (cases r)
    case (Inl e)
    then show ?thesis using wf f2 by (simp add: Let_def)
  next
    case (Inr x)
    obtain r3 w3 where rc: "export_chunks env a d L ts (Suc i) starts w2 = (r3, w3)"
      by (metis surj_pair)
    have ih: "fs w3 (Whisper_input u) = fs w2 (Whisper_input u)
        \<and> (\<forall>ps. r3 = Inr ps \<longrightarrow> Whisper_input u \<notin> set ps)"
      using Cons.IH [of "Suc i" w2] by (simp add: rc)
    show ?thesis using wf Inr rc ih f2 by (cases r3) (simp_all add: Let_def)
  qed
qed

lemma transcribe_chunks_other:
  "q \<notin> set ps \<Longrightarrow> fs (snd (transcribe_chunks env idx ps w)) q = fs w q"
proof (induction ps arbitrary: idx w)
  case Nil
  then show ?case by simp
next
  case (Cons p ps)
  have "fs (snd (transcribe_chunks env (Suc idx) ps (snd (os_remove env w p)))) q
      = fs (snd (os_remove env w p)) q"
    using Cons.prems by (intro Cons.IH) simp
  also have "\<dots> = fs w q" using Cons.prems by (intro fs_os_remove_other) auto
  finally show ?case by (simp add: Let_def case_prod_beta)
qed

lemma chunked_pass_input:
  "fs (snd (chunked_pass env w wav ms)) (Whisper_input u) = fs w (Whisper_input u)"
proof -
  obtain r w1 where s: "split_audio_to_files env w wav (SEG_LEN_SECONDS env) = (r, w1)"
    by (metis surj_pair)
  have s1: "fs w1 (Whisper_input u) = fs w (Whisper_input u)
      \<and> (\<forall>ps. r = Inr ps \<longrightarrow> Whisper_input u \<notin> set ps)"
  proof (cases "from_file w wav")
    case (Inl e)
    then show ?thesis using s by (auto simp: split_audio_to_files_def)
  next
    case (Inr a)
    show ?thesis
    proof (cases "py_range 0 (int (length a)) (SEG_LEN_SECONDS env * 1000)")
      case (Inl e)
      then show ?thesis using s Inr by (auto simp: split_audio_to_files_def Let_def)
    next
      case (Inr starts)
      have "split_audio_to_files env w wav (SEG_LEN_SECONDS env)
          = export_chunks env a (int (length a)) (SEG_LEN_SECONDS env * 1000) (now env) 0 starts w"
        using \<open>from_file w wav = Inr a\<close> Inr by (simp add: split_audio_to_files_def Let_def)
      then have x: "export_chunks env a (int (length a)) (SEG_LEN_SECONDS env * 1000) (now env)
          0 starts w = (r, w1)"
        using s by simp
      show ?thesis
        using export_chunks_input [of env a "int (length a)" "SEG_LEN_SECONDS env * 1000"
            "now env" 0 starts w u]
        by (simp add: x)
    qed
  qed
  show ?thesis
  proof (cases r)
    case (Inl e)
    then show ?thesis using s s1 by (simp add: chunked_pass_def)
  next
    case (Inr ps)
    obtain parts w2 where t: "transcribe_chunks env 1 ps w1 = (parts, w2)" by (metis surj_pair)
    have "Whisper_input u \<notin> set ps" using s1 Inr by simp
    then have "fs (snd (transcribe_chunks env 1 ps w1)) (Whisper_input u) = fs w1 (Whisper_input u)"
      by (rule transcribe_chunks_other)
    then show ?thesis using s Inr t s1 by (simp add: chunked_pass_def Let_def)
  qed
qed

lemma single_pass_world: "snd (single_pass env w wav ms) = w"
  by (simp add: single_pass_def split: sum.splits)

lemma ensure_wav_copy_result:
  assumes "fst (ensure_wav_copy env w p) = Inr (wav_path, ms)"
  shows "wav_path = Whisper_input (next_uuid w)
      \<and> (\<exists>a. fs (snd (ensure_wav_copy env w p)) wav_path = Some (Audio a))"
  using assms
  by (auto simp: ensure_wav_copy_def Let_def write_file_def split: sum.splits option.splits)

lemma remove_if_exists_present:
  assumes "fs w p = Some c"
  shows "trace (remove_if_exists env w p) = trace w @ [Remove_attempt p]
      \<and> fs (remove_if_exists env w p) p = (if remove_error env p = None then None else Some c)"
  using assms by (simp add: remove_if_exists_def os_remove_def Let_def split: option.splits)

text \<open>
  C9, as amended.  Once \<open>ensure_wav_copy\<close> has produced the working file, take \<open>body\<close> to be
  the \<open>try\<close> block of \<open>transcribe_file\<close> (chunking, transcription and joining), whether it
  returns a transcript or raises.  Then
  \<^item> the outcome of \<open>transcribe_file\<close> is the outcome of \<open>body\<close>: the \<open>finally\<close> block never
    changes it, so a removal that fails is swallowed;
  \<^item> the effects of \<open>transcribe_file\<close> are those of \<open>body\<close> followed by one attempt to remove
    the working file: the removal is attempted on the returning and on every raising path;
  \<^item> when the operating system does not refuse the removal, no working file is left;
  \<^item> when it refuses, the working file stays as \<open>ensure_wav_copy\<close> wrote it.
\<close>

theorem working_file_removed:
  fixes env :: env and w :: world and p wav_path :: path and ms :: nat
  defines "w1 \<equiv> snd (ensure_wav_copy env w p)"
  defines "body \<equiv> (if real_of_int (CHUNK_THRESHOLD_S env) < duration_s ms
                     then chunked_pass env w1 wav_path ms else single_pass env w1 wav_path ms)"
  assumes "fst (ensure_wav_copy env w p) = Inr (wav_path, ms)"
  shows "fst (transcribe_file env w p) = fst body
       \<and> trace (snd (transcribe_file env w p)) = trace (snd body) @ [Remove_attempt wav_path]
       \<and> (remove_error env wav_path = None
            \<longrightarrow> fs (snd (transcribe_file env w p)) wav_path = None)
       \<and> (remove_error env wav_path \<noteq> None
            \<longrightarrow> fs (snd (transcribe_file env w p)) wav_path = fs w1 wav_path
                \<and> fs w1 wav_path \<noteq> None)"
proof -
  have e: "ensure_wav_copy env w p = (Inr (wav_path, ms), w1)"
    using assms(3) by (simp add: w1_def prod_eq_iff)
  obtain u a where u: "wav_path = Whisper_input u" and a: "fs w1 wav_path = Some (Audio a)"
    using ensure_wav_copy_result [OF assms(3)] by (auto simp: w1_def)
  obtain r w2 where b: "body = (r, w2)" by (metis surj_pair)
  have "fs (snd body) wav_path = fs w1 wav_path"
    unfolding body_def u by (simp add: chunked_pass_input single_pass_world)
  then have f2: "fs w2 wav_path = Some (Audio a)" by (simp add: b a)
  have t: "transcribe_file env w p = (r, remove_if_exists env w2 wav_path)"
    using b by (simp add: transcribe_file_def e body_def)
  show ?thesis
    using remove_if_exists_present [OF f2, of env] by (auto simp: t b a)
qed

text \<open>
  The theorem at a recording of three milliseconds: with a model that answers (the call
  returns), with a model that raises (the call raises), and with an operating system that
  refuses to remove working files (the call returns and the file stays).
\<close>

theorem working_file_removed_witness:
  "fst (ensure_wav_copy env0 world_recording (Path ''in.mp3'')) = Inr (Whisper_input 0, 3)
   \<and> remove_error env0 (Whisper_input 0) = None
   \<and> fst (transcribe_file env0 world_recording (Path ''in.mp3''))
        = Inr (single_summary env0 3 @ nl2 @ ''hello'')
   \<and> trace (snd (transcribe_file env0 world_recording (Path ''in.mp3'')))
        = [Write_attempt (Whisper_input 0) (Audio [1, 2, 3]), Remove_attempt (Whisper_input 0)]
   \<and> fs (snd (transcribe_file env0 world_recording (Path ''in.mp3''))) (Whisper_input 0) = None
   \<and> fst (ensure_wav_copy env_whisper_down world_recording (Path ''in.mp3'')) = Inr (Whisper_input 0, 3)
   \<and> remove_error env_whisper_down (Whisper_input 0) = None
   \<and> fst (transcribe_file env_whisper_down world_recording (Path ''in.mp3''))
        = Inl (Exn ''CUDA out of memory'')
   \<and> trace (snd (transcribe_file env_whisper_down world_recording (Path ''in.mp3'')))
        = [Write_attempt (Whisper_input 0) (Audio [1, 2, 3]), Remove_attempt (Whisper_input 0)]
   \<and> fs (snd (transcribe_file env_whisper_down world_recording (Path ''in.mp3''))) (Whisper_input 0)
        = None
   \<and> fst (ensure_wav_copy env_locked world_recording (Path ''in.mp3'')) = Inr (Whisper_input 0, 3)
   \<and> remove_error env_locked (Whisper_input 0) \<noteq> None
   \<and> fst (transcribe_file env_locked world_recording (Path ''in.mp3''))
        = Inr (single_summary env_locked 3 @ nl2 @ ''hello'')
   \<and> trace (snd (transcribe_file env_locked world_recording (Path ''in.mp3'')))
        = [Write_attempt (Whisper_input 0) (Audio [1, 2, 3]), Remove_attempt (Whisper_input 0)]
   \<and> fs (snd (transcribe_file env_locked world_recording (Path ''in.mp3''))) (Whisper_input 0)
        = Some (Audio [1, 2, 3])"
proof -
  have e0: "fst (ensure_wav_copy env0 world_recording (Path ''in.mp3'')) = Inr (Whisper_input 0, 3)"
    by code_simp
  have r0: "remove_error env0 (Whisper_input 0) = None"
    by (simp add: env0_def)
  have t0: "fst (transcribe_file env0 world_recording (Path ''in.mp3''))
      = Inr (single_summary env0 3 @ nl2 @ ''hello'')"
    by code_simp
  have c0: "trace (snd (transcribe_file env0 world_recording (Path ''in.mp3'')))
      = [Write_attempt (Whisper_input 0) (Audio [1, 2, 3]), Remove_attempt (Whisper_input 0)]"
    by code_simp
  have e1: "fst (ensure_wav_copy env_whisper_down world_recording (Path ''in.mp3''))
      = Inr (Whisper_input 0, 3)"
    by code_simp
  have r1: "remove_error env_whisper_down (Whisper_input 0) = None"
    by (simp add: env_whisper_down_def env0_def)
  have t1: "fst (transcribe_file env_whisper_down world_recording (Path ''in.mp3''))
      = Inl (Exn ''CUDA out of memory'')"
    by code_simp
  have c1: "trace (snd (transcribe_file env_whisper_down world_recording (Path ''in.mp3'')))
      = [Write_attempt (Whisper_input 0) (Audio [1, 2, 3]), Remove_attempt (Whisper_input 0)]"
    by code_simp
  have e2: "fst (ensure_wav_copy env_locked world_recording (Path ''in.mp3''))
      = Inr (Whisper_input 0, 3)"
    by code_simp
  have r2: "remove_error env_locked (Whisper_input 0) \<noteq> None"
    by (simp add: env_locked_def env0_def)
  have t2: "fst (transcribe_file env_locked world_recording (Path ''in.mp3''))
      = Inr (single_summary env_locked 3 @ nl2 @ ''hello'')"
    by code_simp
  have c2: "trace (snd (transcribe_file env_locked world_recording (Path ''in.mp3'')))
      = [Write_attempt (Whisper_input 0) (Audio [1, 2, 3]), Remove_attempt (Whisper_input 0)]"
    by code_simp
  have f2: "fs (snd (ensure_wav_copy env_locked world_recording (Path ''in.mp3''))) (Whisper_input 0)
      = Some (Audio [1, 2, 3])"
    by code_simp
  have g0: "fs (snd (transcribe_file env0 world_recording (Path ''in.mp3''))) (Whisper_input 0) = None"
    using working_file_removed [OF e0] r0 by blast
  have g1: "fs (snd (transcribe_file env_whisper_down world_recording (Path ''in.mp3'')))
      (Whisper_input 0) = None"
    using working_file_removed [OF e1] r1 by blast
  have g2: "fs (snd (transcribe_file env_locked world_recording (Path ''in.mp3'')))
      (Whisper_input 0) = Some (Audio [1, 2, 3])"
    using working_file_removed [OF e2] r2 f2 by simp
  show ?thesis
    using e0 r0 t0 c0 g0 e1 r1 t1 c1 g1 e2 r2 t2 c2 g2 by (intro conjI)
qed

text \<open>
  The claim as stated fails when the removal itself fails: \<open>except Exception: pass\<close>
  swallows the error, the call returns its transcript, and the working file stays.
\<close>

theorem working_file_left_behind:
  "fst (transcribe_file env_locked world_recording (Path ''in.mp3''))
     = Inr (single_summary env_locked 3 @ nl2 @ ''hello'')
   \<and> fs (snd (transcribe_file env_locked world_recording (Path ''in.mp3''))) (Whisper_input 0)
     = Some (Audio [1, 2, 3])"
  by code_simp

section \<open>First in, first out\<close>

text \<open>
  No step of the transcription, of the notification or of the cleanup touches the queue or
  emits a job event: each leaves the world with the same jobs.
\<close>

lemma same_jobs_refl: "same_jobs w w"
  by (simp add: same_jobs_def)

lemma same_jobs_trans: "same_jobs w w1 \<Longrightarrow> same_jobs w1 w2 \<Longrightarrow> same_jobs w w2"
  by (simp add: same_jobs_def)

lemma same_jobs_next_uuid: "same_jobs w (w\<lparr>next_uuid := n\<rparr>)"
  by (simp add: same_jobs_def)

lemma same_jobs_write_file: "same_jobs w (snd (write_file env w p c))"
  by (simp add: same_jobs_def write_file_def Let_def split: option.splits)

lemma same_jobs_os_remove: "same_jobs w (snd (os_remove env w p))"
  by (simp add: same_jobs_def os_remove_def Let_def split: option.splits)

lemma same_jobs_remove_if_exists: "same_jobs w (remove_if_exists env w p)"
  by (simp add: remove_if_exists_def same_jobs_os_remove same_jobs_refl)

lemma same_jobs_ensure_wav_copy: "same_jobs w (snd (ensure_wav_copy env w p))"
proof -
  have "same_jobs (w\<lparr>next_uuid := Suc (next_uuid w)\<rparr>)
          (snd (write_file env (w\<lparr>next_uuid := Suc (next_uuid w)\<rparr>) q c))" for q c
    by (rule same_jobs_write_file)
  then have "same_jobs w (snd (write_file env (w\<lparr>next_uuid := Suc (next_uuid w)\<rparr>) q c))" for q c
    using same_jobs_next_uuid same_jobs_trans by blast
  then show ?thesis
    by (auto simp: ensure_wav_copy_def Let_def same_jobs_next_uuid split: sum.splits prod.splits)
       (metis snd_conv)+
qed

lemma same_jobs_export_chunks:
  "same_jobs w (snd (export_chunks env a d L ts i starts w))"
proof (induction starts arbitrary: i w)
  case Nil
  then show ?case by (simp add: same_jobs_refl)
next
  case (Cons s starts)
  let ?w1 = "w\<lparr>next_uuid := Suc (next_uuid w)\<rparr>"
  let ?p = "Whisper_chunk ts (next_uuid w) i"
  let ?c = "Audio (slice a s (min (s + L) d))"
  obtain r w2 where wf: "write_file env ?w1 ?p ?c = (r, w2)" by (metis surj_pair)
  have s2: "same_jobs w w2"
    using same_jobs_write_file [of ?w1 env ?p ?c] same_jobs_next_uuid [of w] wf same_jobs_trans
    by (metis snd_conv)
  show ?case
  proof (cases r)
    case (Inl e)
    then show ?thesis using wf s2 by (simp add: Let_def)
  next
    case (Inr u)
    obtain r3 w3 where rc: "export_chunks env a d L ts (Suc i) starts w2 = (r3, w3)"
      by (metis surj_pair)
    have "same_jobs w2 w3" using Cons.IH [of w2 "Suc i"] rc by simp
    then have "same_jobs w w3" using s2 same_jobs_trans by blast
    then show ?thesis using wf Inr rc by (simp add: Let_def split: sum.splits)
  qed
qed

lemma same_jobs_split_audio_to_files: "same_jobs w (snd (split_audio_to_files env w p seg))"
  by (simp add: split_audio_to_files_def Let_def same_jobs_refl same_jobs_export_chunks
      split: sum.splits)

lemma same_jobs_transcribe_chunks: "same_jobs w (snd (transcribe_chunks env idx ps w))"
proof (induction ps arbitrary: idx w)
  case Nil
  then show ?case by (simp add: same_jobs_refl)
next
  case (Cons p ps)
  have "same_jobs (snd (os_remove env w p))
          (snd (transcribe_chunks env (Suc idx) ps (snd (os_remove env w p))))"
    by (rule Cons.IH)
  then have "same_jobs w (snd (transcribe_chunks env (Suc idx) ps (snd (os_remove env w p))))"
    using same_jobs_os_remove same_jobs_trans by blast
  then show ?case by (auto simp: Let_def split: prod.splits)
qed

lemma same_jobs_chunked_pass: "same_jobs w (snd (chunked_pass env w p ms))"
proof -
  obtain r w1 where s: "split_audio_to_files env w p (SEG_LEN_SECONDS env) = (r, w1)"
    by (metis surj_pair)
  have s1: "same_jobs w w1" using same_jobs_split_audio_to_files [of w env p "SEG_LEN_SECONDS env"] s by simp
  show ?thesis
  proof (cases r)
    case (Inl e)
    then show ?thesis using s s1 by (simp add: chunked_pass_def)
  next
    case (Inr ps)
    obtain parts w2 where t: "transcribe_chunks env 1 ps w1 = (parts, w2)" by (metis surj_pair)
    have "same_jobs w1 w2" using same_jobs_transcribe_chunks [of w1 env 1 ps] t by simp
    then have "same_jobs w w2" using s1 same_jobs_trans by blast
    then show ?thesis using s Inr t by (simp add: chunked_pass_def Let_def)
  qed
qed

lemma same_jobs_single_pass: "same_jobs w (snd (single_pass env w p ms))"
  by (simp add: single_pass_def same_jobs_refl split: sum.splits)

lemma same_jobs_transcribe_file: "same_jobs w (snd (transcribe_file env w p))"
proof -
  obtain r w1 where e: "ensure_wav_copy env w p = (r, w1)" by (metis surj_pair)
  have s1: "same_jobs w w1" using same_jobs_ensure_wav_copy [of w env p] e by simp
  show ?thesis
  proof (cases r)
    case (Inl x)
    then show ?thesis using e s1 by (simp add: transcribe_file_def)
  next
    case (Inr pm)
    obtain wav ms where pm: "pm = (wav, ms)" by (cases pm)
    obtain r2 w2 where b:
      "(if real_of_int (CHUNK_THRESHOLD_S env) < duration_s ms
        then chunked_pass env w1 wav ms else single_pass env w1 wav ms) = (r2, w2)"
      by (metis surj_pair)
    have "same_jobs w1 w2"
      using b same_jobs_chunked_pass [of w1 env wav ms] same_jobs_single_pass [of w1 env wav ms]
      by (auto split: if_splits)
    then have "same_jobs w (remove_if_exists env w2 wav)"
      using s1 same_jobs_remove_if_exists same_jobs_trans by blast
    then show ?thesis using e Inr pm b by (simp add: transcribe_file_def)
  qed
qed

lemma same_jobs_send_email_with_fallback:
  "same_jobs w (snd (send_email_with_fallback env w to_address subject body_text attachments fb))"
proof -
  have a: "same_jobs w (w\<lparr>trace := trace w @ [Smtp_attempt m]\<rparr>)" for m
    by (simp add: same_jobs_def)
  have b: "same_jobs w (snd (write_file env (w\<lparr>trace := trace w @ [Smtp_attempt m]\<rparr>) q c))" for m q c
    using a same_jobs_write_file same_jobs_trans by blast
  show ?thesis
    by (auto simp: send_email_with_fallback_def Let_def same_jobs_refl a b
        split: sum.splits option.splits)
qed

lemma enqueued_ids_append: "enqueued_ids (xs @ ys) = enqueued_ids xs @ enqueued_ids ys"
  by (induction xs rule: enqueued_ids.induct) auto

lemma processing_ids_append: "processing_ids (xs @ ys) = processing_ids xs @ processing_ids ys"
  by (induction xs rule: processing_ids.induct) auto

lemma enqueued_ids_filter: "enqueued_ids (filter is_job_event es) = enqueued_ids es"
  by (induction es rule: enqueued_ids.induct) auto

lemma processing_ids_filter: "processing_ids (filter is_job_event es) = processing_ids es"
  by (induction es rule: processing_ids.induct) auto

lemma is_mark_filter: "filter is_mark (filter is_job_event es) = filter is_mark es"
proof -
  have "is_mark e \<Longrightarrow> is_job_event e" for e by (cases e) auto
  then show ?thesis by (induction es) auto
qed

text \<open>What a stretch of job events at the end of the trace means for the observations.\<close>

lemma job_events_appended:
  assumes "filter is_job_event (trace w') = filter is_job_event (trace w) @ es"
  shows "enqueued_ids (trace w') = enqueued_ids (trace w) @ enqueued_ids es"
    and "processing_ids (trace w') = processing_ids (trace w) @ processing_ids es"
    and "filter is_mark (trace w') = filter is_mark (trace w) @ filter is_mark es"
proof -
  have "enqueued_ids (trace w') = enqueued_ids (filter is_job_event (trace w'))"
    by (simp only: enqueued_ids_filter)
  also have "\<dots> = enqueued_ids (filter is_job_event (trace w)) @ enqueued_ids es"
    by (simp only: assms enqueued_ids_append)
  finally show "enqueued_ids (trace w') = enqueued_ids (trace w) @ enqueued_ids es"
    by (simp only: enqueued_ids_filter)
  have "processing_ids (trace w') = processing_ids (filter is_job_event (trace w'))"
    by (simp only: processing_ids_filter)
  also have "\<dots> = processing_ids (filter is_job_event (trace w)) @ processing_ids es"
    by (simp only: assms processing_ids_append)
  finally show "processing_ids (trace w') = processing_ids (trace w) @ processing_ids es"
    by (simp only: processing_ids_filter)
  have "filter is_mark (trace w') = filter is_mark (filter is_job_event (trace w'))"
    by (simp only: is_mark_filter)
  also have "\<dots> = filter is_mark (filter is_job_event (trace w)) @ filter is_mark es"
    by (simp only: assms filter_append)
  finally show "filter is_mark (trace w') = filter is_mark (trace w) @ filter is_mark es"
    by (simp only: is_mark_filter)
qed

lemma same_jobs_observed:
  assumes "same_jobs w w'"
  shows "job_q w' = job_q w"
    and "enqueued_ids (trace w') = enqueued_ids (trace w)"
    and "processing_ids (trace w') = processing_ids (trace w)"
    and "filter is_mark (trace w') = filter is_mark (trace w)"
proof -
  have e: "filter is_job_event (trace w') = filter is_job_event (trace w) @ []"
    using assms by (simp add: same_jobs_def)
  show "job_q w' = job_q w" using assms by (simp add: same_jobs_def)
  show "enqueued_ids (trace w') = enqueued_ids (trace w)"
    using job_events_appended(1) [OF e] by simp
  show "processing_ids (trace w') = processing_ids (trace w)"
    using job_events_appended(2) [OF e] by simp
  show "filter is_mark (trace w') = filter is_mark (trace w)"
    using job_events_appended(3) [OF e] by simp
qed

text \<open>A request either leaves the jobs as they are or puts one job at the end of the queue.\<close>

lemma enqueue_jobs:
  "fst (enqueue env w em dest fname)
     = Inr (Accepted (accepted (take 12 (hex env (next_uuid w)))) (take 12 (hex env (next_uuid w))))
   \<and> job_q (snd (enqueue env w em dest fname))
     = job_q w @ [\<lparr>job_id = take 12 (hex env (next_uuid w)), email = em, audio_path = dest,
                    filename = fname, submitted_at = now env\<rparr>]
   \<and> filter is_job_event (trace (snd (enqueue env w em dest fname)))
     = filter is_job_event (trace w) @ [Enqueued (take 12 (hex env (next_uuid w)))]"
  by (simp add: enqueue_def Let_def)

lemma submit_jobs:
  "((\<forall>m jid. fst (submit env w em fname upload) \<noteq> Inr (Accepted m jid))
      \<and> same_jobs w (snd (submit env w em fname upload)))
   \<or> (\<exists>m j. fst (submit env w em fname upload) = Inr (Accepted m (job_id j))
        \<and> email j = em
        \<and> job_q (snd (submit env w em fname upload)) = job_q w @ [j]
        \<and> filter is_job_event (trace (snd (submit env w em fname upload)))
            = filter is_job_event (trace w) @ [Enqueued (job_id j)])"
proof (cases "CHR ''@'' \<in> set em")
  case False
  then show ?thesis by (simp add: submit_def same_jobs_refl)
next
  case True
  let ?w1 = "w\<lparr>next_uuid := Suc (next_uuid w)\<rparr>"
  let ?dest = "upload_dest env w fname"
  obtain r w2 where wf: "write_file env ?w1 ?dest upload = (r, w2)" by (metis surj_pair)
  have "same_jobs ?w1 (snd (write_file env ?w1 ?dest upload))"
    by (rule same_jobs_write_file)
  then have "same_jobs ?w1 w2" by (simp add: wf)
  with same_jobs_next_uuid have s2: "same_jobs w w2" by (rule same_jobs_trans)
  have s3: "same_jobs w (snd (os_remove env w2 ?dest))"
    using s2 same_jobs_os_remove by (rule same_jobs_trans)
  define j where "j = \<lparr>job_id = take 12 (hex env (next_uuid w2)), email = em, audio_path = ?dest,
                         filename = fname, submitted_at = now env\<rparr>"
  have en: "fst (enqueue env w2 em ?dest fname) = Inr (Accepted (accepted (job_id j)) (job_id j))
      \<and> email j = em
      \<and> job_q (snd (enqueue env w2 em ?dest fname)) = job_q w @ [j]
      \<and> filter is_job_event (trace (snd (enqueue env w2 em ?dest fname)))
            = filter is_job_event (trace w) @ [Enqueued (job_id j)]"
    using enqueue_jobs [of env w2 em ?dest fname] s2 by (simp add: j_def same_jobs_def)
  show ?thesis
  proof (cases r)
    case (Inl e)
    then have "submit env w em fname upload = (Inl e, w2)"
      using True wf by (simp add: submit_def Let_def)
    then show ?thesis using s2 by simp
  next
    case (Inr u)
    have q: "submit env w em fname upload
        = (case from_file w2 ?dest of
             Inr a \<Rightarrow>
               if real_of_int (MAX_UPLOAD_S env) < duration_s (length a)
               then (Inr (JSONResponse (too_long env (length a)) 400),
                     snd (os_remove env w2 ?dest))
               else enqueue env w2 em ?dest fname
           | Inl e \<Rightarrow> enqueue env w2 em ?dest fname)"
      using True wf Inr by (simp add: submit_def Let_def)
    have acc: ?thesis if "submit env w em fname upload = enqueue env w2 em ?dest fname"
      apply (rule disjI2)
      apply (rule exI [where x = "accepted (job_id j)"])
      apply (rule exI [where x = j])
      using en by (simp add: that)
    show ?thesis
    proof (cases "from_file w2 ?dest")
      case (Inl e)
      then show ?thesis using q acc by simp
    next
      case (Inr a)
      show ?thesis
      proof (cases "real_of_int (MAX_UPLOAD_S env) < duration_s (length a)")
        case True
        then have "submit env w em fname upload
            = (Inr (JSONResponse (too_long env (length a)) 400), snd (os_remove env w2 ?dest))"
          using q Inr by simp
        then show ?thesis using s3 by simp
      next
        case False
        then show ?thesis using q Inr acc by simp
      qed
    qed
  qed
qed

text \<open>A step of a thread leaves the jobs as they are, or begins the head of the queue, or
  ends the job that the thread holds.\<close>

lemma worker_step_cases:
  assumes "worker_step env w pc = (w', pc')"
  shows "(same_jobs w w' \<and> current pc' = current pc \<and> (pc = Ended \<longrightarrow> pc' = Ended \<and> w' = w))
       \<or> (\<exists>j rest. pc = Polling \<and> pc' = Transcribing j \<and> job_q w = j # rest \<and> job_q w' = rest
            \<and> filter is_job_event (trace w') = filter is_job_event (trace w) @ [Processing (job_id j)])
       \<or> (\<exists>j x. pc = Finishing j x \<and> current pc' = [] \<and> job_q w' = job_q w
            \<and> filter is_job_event (trace w') = filter is_job_event (trace w) @ [Task_done])"
proof (cases pc)
  case Polling
  then show ?thesis using assms by (cases "job_q w") (auto simp: same_jobs_refl)
next
  case (Transcribing j)
  have "same_jobs w (snd (transcribe_file env w (audio_path j)))"
    by (rule same_jobs_transcribe_file)
  then show ?thesis using assms Transcribing by (auto simp: case_prod_beta)
next
  case (Notifying j t)
  have "same_jobs w (snd (send_email_with_fallback env w (email j) (EMAIL_SUBJECT (job_id j))
             (email_body (job_id j) (filename j) t)
             [(''transcript_'' @ job_id j @ ''.txt'', t, ''text/plain'')]
             (Some (Transcript_fallback (job_id j)))))"
    by (rule same_jobs_send_email_with_fallback)
  then show ?thesis using assms Notifying by (auto split: prod.splits sum.splits)
next
  case (Cleaning j)
  then show ?thesis using assms same_jobs_remove_if_exists [of w env "audio_path j"] by auto
next
  case (Finishing j x)
  then show ?thesis using assms by (cases x) auto
next
  case Ended
  then show ?thesis using assms by (auto simp: same_jobs_refl)
qed

text \<open>The jobs held by the threads, when all threads but one hold none.\<close>

lemma busy_only:
  "i < length ts \<Longrightarrow> \<forall>k<length ts. k \<noteq> i \<longrightarrow> current (ts ! k) = []
     \<Longrightarrow> concat (map current ts) = current (ts ! i)"
proof (induction ts arbitrary: i)
  case Nil
  then show ?case by simp
next
  case (Cons t ts)
  show ?case
  proof (cases i)
    case 0
    have "current pc = []" if pc: "pc \<in> set ts" for pc
    proof -
      obtain k where k: "k < length ts" "ts ! k = pc"
        using pc by (auto simp: in_set_conv_nth)
      have "current ((t # ts) ! Suc k) = []" using Cons.prems(2) k(1) 0 by auto
      then show ?thesis using k(2) by simp
    qed
    then have "concat (map current ts) = []" by simp
    then show ?thesis using 0 by simp
  next
    case (Suc i')
    have t: "current t = []" using Cons.prems(2) Suc by auto
    have "\<forall>k<length ts. k \<noteq> i' \<longrightarrow> current (ts ! k) = []"
    proof (intro allI impI)
      fix k assume "k < length ts" "k \<noteq> i'"
      then have "current ((t # ts) ! Suc k) = []" using Cons.prems(2) Suc by auto
      then show "current (ts ! k) = []" by simp
    qed
    moreover have "i' < length ts" using Cons.prems(1) Suc by simp
    ultimately have "concat (map current ts) = current (ts ! i')" by (rule Cons.IH [rotated])
    then show ?thesis using t Suc by simp
  qed
qed

lemma busy_none:
  "\<forall>k<length ts. current (ts ! k) = [] \<Longrightarrow> concat (map current ts) = []"
  by (auto simp: in_set_conv_nth)

lemma orderlyI:
  assumes "\<And>k. k < length (threads s) \<Longrightarrow> WORKER_THREAD s \<noteq> Some k \<Longrightarrow> threads s ! k = Ended"
    and "\<And>i. WORKER_THREAD s = Some i \<Longrightarrow> i < length (threads s)"
    and "processing_ids (trace (shared s)) @ map job_id (job_q (shared s))
          = enqueued_ids (trace (shared s))"
    and "processing_ids (trace (shared s)) = finished @ map job_id (busy s)"
    and "filter is_mark (trace (shared s))
          = one_by_one finished @ map (\<lambda>j. Processing (job_id j)) (busy s)"
  shows "orderly s"
  unfolding orderly_def using assms by blast

lemma orderlyD:
  assumes "orderly s"
  shows "\<exists>finished.
      (\<forall>k<length (threads s). WORKER_THREAD s \<noteq> Some k \<longrightarrow> threads s ! k = Ended)
    \<and> (\<forall>i. WORKER_THREAD s = Some i \<longrightarrow> i < length (threads s))
    \<and> processing_ids (trace (shared s)) @ map job_id (job_q (shared s))
          = enqueued_ids (trace (shared s))
    \<and> processing_ids (trace (shared s)) = finished @ map job_id (busy s)
    \<and> filter is_mark (trace (shared s))
          = one_by_one finished @ map (\<lambda>j. Processing (job_id j)) (busy s)"
  using assms unfolding orderly_def by blast

lemma orderly_busy:
  assumes "orderly s" and "i < length (threads s)" and "threads s ! i \<noteq> Ended"
  shows "WORKER_THREAD s = Some i" and "busy s = current (threads s ! i)"
proof -
  have o1: "threads s ! k = Ended" if "k < length (threads s)" "WORKER_THREAD s \<noteq> Some k" for k
    using orderlyD [OF assms(1)] that by blast
  show w: "WORKER_THREAD s = Some i" using o1 [OF assms(2)] assms(3) by blast
  have "\<forall>k<length (threads s). k \<noteq> i \<longrightarrow> current (threads s ! k) = []"
  proof (intro allI impI)
    fix k assume k: "k < length (threads s)" "k \<noteq> i"
    then have "WORKER_THREAD s \<noteq> Some k" using w by simp
    then have "threads s ! k = Ended" using o1 k(1) by blast
    then show "current (threads s ! k) = []" by simp
  qed
  then show "busy s = current (threads s ! i)"
    unfolding busy_def using assms(2) by (intro busy_only) 
qed

lemma orderly_one_at_a_time:
  assumes "orderly s"
  shows "length (busy s) \<le> 1"
proof (cases "\<exists>i<length (threads s). threads s ! i \<noteq> Ended")
  case True
  then obtain i where i: "i < length (threads s)" "threads s ! i \<noteq> Ended" by blast
  have "busy s = current (threads s ! i)" using assms i by (rule orderly_busy(2))
  then show ?thesis by (cases "threads s ! i") simp_all
next
  case False
  then have "\<forall>k<length (threads s). current (threads s ! k) = []" by auto
  then have "busy s = []" unfolding busy_def by (rule busy_none)
  then show ?thesis by simp
qed

text \<open>The steps keep the state of affairs.\<close>

lemma orderly_same_jobs:
  assumes "orderly s" and "same_jobs (shared s) w'"
  shows "orderly (s\<lparr>shared := w'\<rparr>)"
proof -
  note sj = same_jobs_observed [OF assms(2)]
  from assms(1) obtain finished where o':
    "(\<forall>k<length (threads s). WORKER_THREAD s \<noteq> Some k \<longrightarrow> threads s ! k = Ended)
    \<and> (\<forall>i. WORKER_THREAD s = Some i \<longrightarrow> i < length (threads s))
    \<and> processing_ids (trace (shared s)) @ map job_id (job_q (shared s))
          = enqueued_ids (trace (shared s))
    \<and> processing_ids (trace (shared s)) = finished @ map job_id (busy s)
    \<and> filter is_mark (trace (shared s))
          = one_by_one finished @ map (\<lambda>j. Processing (job_id j)) (busy s)"
    using orderlyD by blast
  have o:
    "\<And>k. k < length (threads s) \<Longrightarrow> WORKER_THREAD s \<noteq> Some k \<Longrightarrow> threads s ! k = Ended"
    "\<And>i. WORKER_THREAD s = Some i \<Longrightarrow> i < length (threads s)"
    "processing_ids (trace (shared s)) @ map job_id (job_q (shared s))
          = enqueued_ids (trace (shared s))"
    "processing_ids (trace (shared s)) = finished @ map job_id (busy s)"
    "filter is_mark (trace (shared s))
          = one_by_one finished @ map (\<lambda>j. Processing (job_id j)) (busy s)"
    using o' by blast+
  have o3: "finished @ map job_id (busy s) @ map job_id (job_q (shared s))
      = enqueued_ids (trace (shared s))"
    using o(3) o(4) by simp
  have b: "busy (s\<lparr>shared := w'\<rparr>) = busy s" by (simp add: busy_def)
  show ?thesis
    by (rule orderlyI [where finished = finished]) (simp_all add: o o3 sj b)
qed

lemma orderly_enqueued:
  assumes "orderly s"
    and "job_q w' = job_q (shared s) @ [j]"
    and "filter is_job_event (trace w') = filter is_job_event (trace (shared s)) @ [Enqueued (job_id j)]"
  shows "orderly (s\<lparr>shared := w'\<rparr>)"
proof -
  note ev = job_events_appended [OF assms(3)]
  from assms(1) obtain finished where o':
    "(\<forall>k<length (threads s). WORKER_THREAD s \<noteq> Some k \<longrightarrow> threads s ! k = Ended)
    \<and> (\<forall>i. WORKER_THREAD s = Some i \<longrightarrow> i < length (threads s))
    \<and> processing_ids (trace (shared s)) @ map job_id (job_q (shared s))
          = enqueued_ids (trace (shared s))
    \<and> processing_ids (trace (shared s)) = finished @ map job_id (busy s)
    \<and> filter is_mark (trace (shared s))
          = one_by_one finished @ map (\<lambda>j. Processing (job_id j)) (busy s)"
    using orderlyD by blast
  have o:
    "\<And>k. k < length (threads s) \<Longrightarrow> WORKER_THREAD s \<noteq> Some k \<Longrightarrow> threads s ! k = Ended"
    "\<And>i. WORKER_THREAD s = Some i \<Longrightarrow> i < length (threads s)"
    "processing_ids (trace (shared s)) @ map job_id (job_q (shared s))
          = enqueued_ids (trace (shared s))"
    "processing_ids (trace (shared s)) = finished @ map job_id (busy s)"
    "filter is_mark (trace (shared s))
          = one_by_one finished @ map (\<lambda>j. Processing (job_id j)) (busy s)"
    using o' by blast+
  have o3: "finished @ map job_id (busy s) @ map job_id (job_q (shared s))
      = enqueued_ids (trace (shared s))"
    using o(3) o(4) by simp
  have b: "busy (s\<lparr>shared := w'\<rparr>) = busy s" by (simp add: busy_def)
  have q: "processing_ids (trace w') @ map job_id (job_q w') = enqueued_ids (trace w')"
    using o(3) by (simp add: ev assms(2))
  show ?thesis
    by (rule orderlyI [where finished = finished]) (simp_all add: o o3 [symmetric] ev b assms(2))
qed

lemma orderly_start_worker:
  assumes "orderly s"
  shows "orderly (start_worker s)"
proof (cases "case WORKER_THREAD s of None \<Rightarrow> True | Some i \<Rightarrow> \<not> is_alive s i")
  case False
  then show ?thesis using assms by (simp add: start_worker_def)
next
  case True
  define s' where "s' = s\<lparr>threads := threads s @ [Polling], WORKER_THREAD := Some (length (threads s))\<rparr>"
  have st: "start_worker s = s'" using True by (simp add: start_worker_def s'_def)
  from assms obtain finished where o':
    "(\<forall>k<length (threads s). WORKER_THREAD s \<noteq> Some k \<longrightarrow> threads s ! k = Ended)
    \<and> (\<forall>i. WORKER_THREAD s = Some i \<longrightarrow> i < length (threads s))
    \<and> processing_ids (trace (shared s)) @ map job_id (job_q (shared s))
          = enqueued_ids (trace (shared s))
    \<and> processing_ids (trace (shared s)) = finished @ map job_id (busy s)
    \<and> filter is_mark (trace (shared s))
          = one_by_one finished @ map (\<lambda>j. Processing (job_id j)) (busy s)"
    using orderlyD by blast
  have o:
    "\<And>k. k < length (threads s) \<Longrightarrow> WORKER_THREAD s \<noteq> Some k \<Longrightarrow> threads s ! k = Ended"
    "\<And>i. WORKER_THREAD s = Some i \<Longrightarrow> i < length (threads s)"
    "processing_ids (trace (shared s)) @ map job_id (job_q (shared s))
          = enqueued_ids (trace (shared s))"
    "processing_ids (trace (shared s)) = finished @ map job_id (busy s)"
    "filter is_mark (trace (shared s))
          = one_by_one finished @ map (\<lambda>j. Processing (job_id j)) (busy s)"
    using o' by blast+
  have o3: "finished @ map job_id (busy s) @ map job_id (job_q (shared s))
      = enqueued_ids (trace (shared s))"
    using o(3) o(4) by simp
  have old: "threads s ! k = Ended" if "k < length (threads s)" for k
  proof (cases "WORKER_THREAD s = Some k")
    case True
    with \<open>case WORKER_THREAD s of None \<Rightarrow> True | Some i \<Rightarrow> \<not> is_alive s i\<close>
    have "\<not> is_alive s k" by simp
    then show ?thesis using that by (simp add: is_alive_def)
  next
    case False
    then show ?thesis using o(1) that by blast
  qed
  have b: "busy s' = busy s" by (simp add: busy_def s'_def)
  have "orderly s'"
  proof (rule orderlyI [where finished = finished])
    fix k assume k: "k < length (threads s')" "WORKER_THREAD s' \<noteq> Some k"
    then have "k < length (threads s)" by (simp add: s'_def)
    then show "threads s' ! k = Ended" using old by (simp add: s'_def nth_append)
  next
    fix i assume "WORKER_THREAD s' = Some i"
    then show "i < length (threads s')" by (auto simp: s'_def)
  qed (simp_all add: b o o3, simp_all add: s'_def o o3)
  then show ?thesis by (simp add: st)
qed

lemma one_by_one_append: "one_by_one (xs @ ys) = one_by_one xs @ one_by_one ys"
  by (simp add: one_by_one_def)

lemma busy_update:
  assumes "orderly s" and "i < length (threads s)" and "threads s ! i \<noteq> Ended"
  shows "busy (s\<lparr>shared := w', threads := (threads s)[i := pc']\<rparr>) = current pc'"
proof -
  have w: "WORKER_THREAD s = Some i" using assms by (rule orderly_busy(1))
  have "\<forall>k<length ((threads s)[i := pc']). k \<noteq> i \<longrightarrow> current ((threads s)[i := pc'] ! k) = []"
  proof (intro allI impI)
    fix k assume k: "k < length ((threads s)[i := pc'])" "k \<noteq> i"
    then have "WORKER_THREAD s \<noteq> Some k" using w by simp
    then have "threads s ! k = Ended" using orderlyD [OF assms(1)] k(1) by auto
    then show "current ((threads s)[i := pc'] ! k) = []" using k(2) by simp
  qed
  moreover have "i < length ((threads s)[i := pc'])" using assms(2) by simp
  ultimately have "concat (map current ((threads s)[i := pc'])) = current ((threads s)[i := pc'] ! i)"
    by (rule busy_only [rotated])
  then show ?thesis using assms(2) by (simp add: busy_def)
qed

lemma orderly_thread_step:
  assumes "orderly s"
  shows "orderly (server_step env (Thread i) s)"
proof (cases "i < length (threads s)")
  case False
  then show ?thesis using assms by simp
next
  case True
  obtain w' pc' where ws: "worker_step env (shared s) (threads s ! i) = (w', pc')"
    by (metis surj_pair)
  define s1 where "s1 = s\<lparr>shared := w', threads := (threads s)[i := pc']\<rparr>"
  have st: "server_step env (Thread i) s = s1"
    using True ws by (simp add: s1_def)
  show ?thesis
  proof (cases "threads s ! i = Ended")
    case Ended: True
    then have "w' = shared s" "pc' = Ended" using ws by simp_all
    moreover have "(threads s)[i := Ended] = threads s"
      using Ended by (metis list_update_id)
    ultimately have "s1 = s" by (simp add: s1_def)
    then show ?thesis using assms by (simp only: st)
  next
    case False
    have w: "WORKER_THREAD s = Some i" using assms True False by (rule orderly_busy(1))
    have b: "busy s = current (threads s ! i)" using assms True False by (rule orderly_busy(2))
    have b1: "busy s1 = current pc'"
      unfolding s1_def using assms True False by (rule busy_update)
    from assms obtain finished where o':
      "(\<forall>k<length (threads s). WORKER_THREAD s \<noteq> Some k \<longrightarrow> threads s ! k = Ended)
      \<and> (\<forall>i. WORKER_THREAD s = Some i \<longrightarrow> i < length (threads s))
      \<and> processing_ids (trace (shared s)) @ map job_id (job_q (shared s))
            = enqueued_ids (trace (shared s))
      \<and> processing_ids (trace (shared s)) = finished @ map job_id (busy s)
      \<and> filter is_mark (trace (shared s))
            = one_by_one finished @ map (\<lambda>j. Processing (job_id j)) (busy s)"
      using orderlyD by blast
    have o3: "processing_ids (trace (shared s)) @ map job_id (job_q (shared s))
            = enqueued_ids (trace (shared s))"
      and o4: "processing_ids (trace (shared s)) = finished @ map job_id (busy s)"
      and o5: "filter is_mark (trace (shared s))
            = one_by_one finished @ map (\<lambda>j. Processing (job_id j)) (busy s)"
      using o' by blast+
    have t1: "threads s1 ! k = Ended" if "k < length (threads s1)" "WORKER_THREAD s1 \<noteq> Some k" for k
    proof -
      have "k \<noteq> i" using that(2) w by (simp add: s1_def)
      moreover have "threads s ! k = Ended" using o' that w by (auto simp: s1_def)
      ultimately show ?thesis by (simp add: s1_def)
    qed
    have t2: "k < length (threads s1)" if "WORKER_THREAD s1 = Some k" for k
      using that w True by (simp add: s1_def)
    have sh: "shared s1 = w'" by (simp add: s1_def)
    consider (same) "same_jobs (shared s) w'" "current pc' = current (threads s ! i)"
      | (taken) j rest where "threads s ! i = Polling" "pc' = Transcribing j"
          "job_q (shared s) = j # rest" "job_q w' = rest"
          "filter is_job_event (trace w')
             = filter is_job_event (trace (shared s)) @ [Processing (job_id j)]"
      | (closed) j x where "threads s ! i = Finishing j x" "current pc' = []"
          "job_q w' = job_q (shared s)"
          "filter is_job_event (trace w') = filter is_job_event (trace (shared s)) @ [Task_done]"
      using worker_step_cases [OF ws] by blast
    then have "orderly s1"
    proof cases
      case same
      note sj = same_jobs_observed [OF same(1)]
      have bb: "busy s1 = busy s" using b b1 same(2) by simp
      show ?thesis
      proof (rule orderlyI [where finished = finished])
        show "processing_ids (trace (shared s1)) @ map job_id (job_q (shared s1))
            = enqueued_ids (trace (shared s1))"
          using o3 by (simp add: sh sj)
        show "processing_ids (trace (shared s1)) = finished @ map job_id (busy s1)"
          using o4 by (simp add: sh sj bb)
        show "filter is_mark (trace (shared s1))
            = one_by_one finished @ map (\<lambda>j. Processing (job_id j)) (busy s1)"
          using o5 by (simp add: sh sj bb)
      qed (fact t1 t2)+
    next
      case taken
      note ev = job_events_appended [OF taken(5)]
      have b0: "busy s = []" using b taken(1) by simp
      have bb: "busy s1 = [j]" using b1 taken(2) by simp
      show ?thesis
      proof (rule orderlyI [where finished = finished])
        show "processing_ids (trace (shared s1)) @ map job_id (job_q (shared s1))
            = enqueued_ids (trace (shared s1))"
          using o3 by (simp add: sh ev taken(3) taken(4))
        show "processing_ids (trace (shared s1)) = finished @ map job_id (busy s1)"
          using o4 by (simp add: sh ev bb b0)
        show "filter is_mark (trace (shared s1))
            = one_by_one finished @ map (\<lambda>j. Processing (job_id j)) (busy s1)"
          using o5 by (simp add: sh ev bb b0)
      qed (fact t1 t2)+
    next
      case closed
      note ev = job_events_appended [OF closed(4)]
      have b0: "busy s = [j]" using b closed(1) by simp
      have bb: "busy s1 = []" using b1 closed(2) by simp
      show ?thesis
      proof (rule orderlyI [where finished = "finished @ [job_id j]"])
        show "processing_ids (trace (shared s1)) @ map job_id (job_q (shared s1))
            = enqueued_ids (trace (shared s1))"
          using o3 by (simp add: sh ev closed(3))
        show "processing_ids (trace (shared s1)) = (finished @ [job_id j]) @ map job_id (busy s1)"
          using o4 by (simp add: sh ev bb b0)
        show "filter is_mark (trace (shared s1))
            = one_by_one (finished @ [job_id j]) @ map (\<lambda>j. Processing (job_id j)) (busy s1)"
          using o5 by (simp add: sh ev bb b0 one_by_one_append) (simp add: one_by_one_def)
      qed (fact t1 t2)+
    qed
    then show ?thesis by (simp only: st)
  qed
qed

lemma orderly_request:
  assumes "orderly s"
  shows "orderly (server_step env (Request em fname upload) s)"
proof -
  obtain r w' where su: "submit env (shared s) em fname upload = (r, w')" by (metis surj_pair)
  have o1: "orderly (s\<lparr>shared := w'\<rparr>)"
    using submit_jobs [of env "shared s" em fname upload] assms
    by (auto simp: su intro: orderly_same_jobs orderly_enqueued)
  have "server_step env (Request em fname upload) s = s\<lparr>shared := w'\<rparr>
      \<or> server_step env (Request em fname upload) s = start_worker (s\<lparr>shared := w'\<rparr>)"
    by (simp add: su split: sum.splits response.splits)
  then show ?thesis using o1 orderly_start_worker by auto
qed

lemma orderly_server_step: "orderly s \<Longrightarrow> orderly (server_step env m s)"
  by (cases m) (simp_all only: orderly_request orderly_thread_step)

lemma orderly_serve: "orderly s \<Longrightarrow> orderly (serve env sched s)"
  by (induction sched arbitrary: s) (simp_all add: orderly_server_step del: server_step.simps)

lemma orderly_boot: "orderly (boot w)"
  by (rule orderlyI [where finished = "[]"]) (simp_all add: boot_def busy_def one_by_one_def)

text \<open>What a request does to the threads and to the observations.\<close>

lemma request_shared:
  "shared (server_step env (Request em fname upload) s) = snd (submit env (shared s) em fname upload)"
  by (simp add: start_worker_def split: prod.splits sum.splits response.splits)

lemma request_threads:
  "threads (server_step env (Request em fname upload) s) = threads s
   \<or> threads (server_step env (Request em fname upload) s) = threads s @ [Polling]"
  by (simp add: start_worker_def split: prod.splits sum.splits response.splits)

lemma request_frame:
  assumes "i < length (threads s)"
    and "\<forall>k<length (threads s). k \<noteq> i \<longrightarrow> current (threads s ! k) = []"
  shows "i < length (threads (server_step env (Request em fname upload) s))
     \<and> (\<forall>k<length (threads (server_step env (Request em fname upload) s)).
           k \<noteq> i \<longrightarrow> current (threads (server_step env (Request em fname upload) s) ! k) = [])
     \<and> threads (server_step env (Request em fname upload) s) ! i = threads s ! i
     \<and> filter is_mark (trace (shared (server_step env (Request em fname upload) s)))
         = filter is_mark (trace (shared s))
     \<and> processing_ids (trace (shared (server_step env (Request em fname upload) s)))
         = processing_ids (trace (shared s))
     \<and> (\<exists>new. job_q (shared (server_step env (Request em fname upload) s))
                 = job_q (shared s) @ new)"
proof -
  define s1 where "s1 = server_step env (Request em fname upload) s"
  have sh: "shared s1 = snd (submit env (shared s) em fname upload)"
    unfolding s1_def by (rule request_shared)
  have th: "threads s1 = threads s \<or> threads s1 = threads s @ [Polling]"
    unfolding s1_def by (rule request_threads)
  have a: "i < length (threads s1)" using th assms(1) by auto
  have b: "threads s1 ! i = threads s ! i" using th assms(1) by (auto simp: nth_append)
  have c: "\<forall>k<length (threads s1). k \<noteq> i \<longrightarrow> current (threads s1 ! k) = []"
  proof (intro allI impI)
    fix k assume k: "k < length (threads s1)" "k \<noteq> i"
    show "current (threads s1 ! k) = []"
    proof (cases "k < length (threads s)")
      case True
      then have "threads s1 ! k = threads s ! k" using th by (auto simp: nth_append)
      then show ?thesis using assms(2) True k(2) by simp
    next
      case False
      then have "threads s1 = threads s @ [Polling]" "k = length (threads s)"
        using th k(1) by auto
      then show ?thesis by simp
    qed
  qed
  have d: "filter is_mark (trace (shared s1)) = filter is_mark (trace (shared s))
      \<and> processing_ids (trace (shared s1)) = processing_ids (trace (shared s))
      \<and> (\<exists>new. job_q (shared s1) = job_q (shared s) @ new)"
  proof -
    consider (same) "same_jobs (shared s) (shared s1)"
      | (queued) j where "job_q (shared s1) = job_q (shared s) @ [j]"
          "filter is_job_event (trace (shared s1))
             = filter is_job_event (trace (shared s)) @ [Enqueued (job_id j)]"
      using submit_jobs [of env "shared s" em fname upload] unfolding sh by blast
    then show ?thesis
    proof cases
      case same
      show ?thesis using same_jobs_observed [OF same] by simp
    next
      case queued
      show ?thesis using job_events_appended [OF queued(2)] queued(1) by simp
    qed
  qed
  show ?thesis using a b c d unfolding s1_def by blast
qed

lemma thread_step:
  assumes "i < length (threads s)"
    and "worker_step env (shared s) (threads s ! i) = (w', pc')"
  shows "server_step env (Thread i) s = s\<lparr>shared := w', threads := (threads s)[i := pc']\<rparr>"
  using assms by simp

text \<open>A step of a thread that is due \<open>n + 1\<close> steps leaves it due \<open>n\<close> steps.\<close>

lemma worker_step_due:
  assumes "worker_step env w pc = (w', pc')" and "due pc (Suc n)"
  shows "due pc' n \<and> job_q w' = job_q w
       \<and> processing_ids (trace w') = processing_ids (trace w)
       \<and> filter is_mark (trace w') @ map (\<lambda>j. Task_done) (current pc')
           = filter is_mark (trace w) @ map (\<lambda>j. Task_done) (current pc)"
proof -
  consider (same) "same_jobs w w'" "current pc' = current pc"
    | (taken) "pc = Polling"
    | (closed) j x where "pc = Finishing j x" "current pc' = []" "job_q w' = job_q w"
        "filter is_job_event (trace w') = filter is_job_event (trace w) @ [Task_done]"
    using worker_step_cases [OF assms(1)] by blast
  then show ?thesis
  proof cases
    case same
    have "due pc' n"
      using assms by (cases "(pc, Suc n)" rule: due.cases) (auto split: prod.splits sum.splits)
    then show ?thesis using same_jobs_observed [OF same(1)] same(2) by simp
  next
    case taken
    then show ?thesis using assms(2) by simp
  next
    case closed
    have "due pc' n" using assms closed(1) by (cases x) auto
    then show ?thesis using job_events_appended [OF closed(4)] closed by simp
  qed
qed

lemma steps_of_Cons:
  "steps_of i (Request em fname upload # sched) = steps_of i sched"
  "steps_of i (Thread i # sched) = Suc (steps_of i sched)"
  "steps_of i [] = 0"
  by (simp_all add: steps_of_def)

lemma finish_in_due_steps:
  assumes "i < length (threads s)"
    and "\<forall>k<length (threads s). k \<noteq> i \<longrightarrow> current (threads s ! k) = []"
    and "\<forall>k. Thread k \<in> set sched \<longrightarrow> k = i"
    and "due (threads s ! i) (steps_of i sched)"
  shows "filter is_mark (trace (shared (serve env sched s)))
           = filter is_mark (trace (shared s)) @ map (\<lambda>j. Task_done) (current (threads s ! i))
       \<and> processing_ids (trace (shared (serve env sched s))) = processing_ids (trace (shared s))
       \<and> busy (serve env sched s) = []
       \<and> (\<exists>new. job_q (shared (serve env sched s)) = job_q (shared s) @ new)
       \<and> (threads (serve env sched s) ! i = Polling \<or> threads (serve env sched s) ! i = Ended)"
  using assms
proof (induction sched arbitrary: s)
  case Nil
  have d: "threads s ! i = Polling \<or> threads s ! i = Ended"
    using Nil.prems(4)
    by (cases "(threads s ! i, 0 :: nat)" rule: due.cases) (simp_all add: steps_of_Cons)
  then have c: "current (threads s ! i) = []" by auto
  have "busy s = current (threads s ! i)"
    unfolding busy_def using Nil.prems(1) Nil.prems(2) by (rule busy_only)
  then show ?case using d c by simp
next
  case (Cons m sched)
  show ?case
  proof (cases m)
    case (Request em fname upload)
    define s1 where "s1 = server_step env (Request em fname upload) s"
    have fr: "i < length (threads s1)
        \<and> (\<forall>k<length (threads s1). k \<noteq> i \<longrightarrow> current (threads s1 ! k) = [])
        \<and> threads s1 ! i = threads s ! i
        \<and> filter is_mark (trace (shared s1)) = filter is_mark (trace (shared s))
        \<and> processing_ids (trace (shared s1)) = processing_ids (trace (shared s))
        \<and> (\<exists>new. job_q (shared s1) = job_q (shared s) @ new)"
      unfolding s1_def using Cons.prems(1) Cons.prems(2) by (rule request_frame)
    have p3: "\<forall>k. Thread k \<in> set sched \<longrightarrow> k = i" using Cons.prems(3) by simp
    have p4: "due (threads s1 ! i) (steps_of i sched)"
      using Cons.prems(4) fr by (simp add: Request steps_of_Cons)
    note ih = Cons.IH [OF fr [THEN conjunct1] fr [THEN conjunct2, THEN conjunct1] p3 p4]
    have sv: "serve env (m # sched) s = serve env sched s1"
      by (simp only: Request serve.simps s1_def)
    obtain new1 where n1: "job_q (shared s1) = job_q (shared s) @ new1" using fr by blast
    obtain new2 where n2: "job_q (shared (serve env sched s1)) = job_q (shared s1) @ new2"
      using ih by blast
    have q: "\<exists>new. job_q (shared (serve env sched s1)) = job_q (shared s) @ new"
      using n1 n2 by simp
    show ?thesis
      unfolding sv using ih fr q by simp
  next
    case (Thread k)
    have k: "k = i" using Cons.prems(3) Thread by simp
    obtain w' pc' where ws: "worker_step env (shared s) (threads s ! i) = (w', pc')"
      by (metis surj_pair)
    define s1 where "s1 = s\<lparr>shared := w', threads := (threads s)[i := pc']\<rparr>"
    have st: "server_step env (Thread i) s = s1"
      unfolding s1_def using Cons.prems(1) ws by (rule thread_step)
    have sv: "serve env (m # sched) s = serve env sched s1"
      by (simp only: Thread k serve.simps st)
    have du: "due (threads s ! i) (Suc (steps_of i sched))"
      using Cons.prems(4) by (simp add: Thread k steps_of_Cons)
    note wd = worker_step_due [OF ws du]
    have p1: "i < length (threads s1)" using Cons.prems(1) by (simp add: s1_def)
    have ti: "threads s1 ! i = pc'" using Cons.prems(1) by (simp add: s1_def)
    have p2: "\<forall>k<length (threads s1). k \<noteq> i \<longrightarrow> current (threads s1 ! k) = []"
      using Cons.prems(2) by (simp add: s1_def)
    have p3: "\<forall>k. Thread k \<in> set sched \<longrightarrow> k = i" using Cons.prems(3) by simp
    have p4: "due (threads s1 ! i) (steps_of i sched)" using wd ti by simp
    note ih = Cons.IH [OF p1 p2 p3 p4]
    have sh: "shared s1 = w'" by (simp add: s1_def)
    show ?thesis
      unfolding sv using ih wd by (simp add: ti sh)
  qed
qed

lemma head_job_processed:
  assumes "i < length (threads s)"
    and "\<forall>k<length (threads s). k \<noteq> i \<longrightarrow> current (threads s ! k) = []"
    and "\<forall>k. Thread k \<in> set sched \<longrightarrow> k = i"
    and "threads s ! i = Polling"
    and "job_q (shared s) = j # rest"
    and "steps_of i sched = 5"
  shows "filter is_mark (trace (shared (serve env sched s)))
           = filter is_mark (trace (shared s)) @ [Processing (job_id j), Task_done]
       \<and> processing_ids (trace (shared (serve env sched s)))
           = processing_ids (trace (shared s)) @ [job_id j]
       \<and> busy (serve env sched s) = []
       \<and> (\<exists>new. job_q (shared (serve env sched s)) = rest @ new)
       \<and> (threads (serve env sched s) ! i = Polling \<or> threads (serve env sched s) ! i = Ended)"
  using assms
proof (induction sched arbitrary: s rest)
  case Nil
  then show ?case by (simp add: steps_of_Cons)
next
  case (Cons m sched)
  show ?case
  proof (cases m)
    case (Request em fname upload)
    define s1 where "s1 = server_step env (Request em fname upload) s"
    have fr: "i < length (threads s1)
        \<and> (\<forall>k<length (threads s1). k \<noteq> i \<longrightarrow> current (threads s1 ! k) = [])
        \<and> threads s1 ! i = threads s ! i
        \<and> filter is_mark (trace (shared s1)) = filter is_mark (trace (shared s))
        \<and> processing_ids (trace (shared s1)) = processing_ids (trace (shared s))
        \<and> (\<exists>new. job_q (shared s1) = job_q (shared s) @ new)"
      unfolding s1_def using Cons.prems(1) Cons.prems(2) by (rule request_frame)
    obtain new1 where n1: "job_q (shared s1) = j # (rest @ new1)"
      using fr Cons.prems(5) by auto
    have p3: "\<forall>k. Thread k \<in> set sched \<longrightarrow> k = i" using Cons.prems(3) by simp
    have p4: "threads s1 ! i = Polling" using fr Cons.prems(4) by simp
    have p6: "steps_of i sched = 5" using Cons.prems(6) by (simp add: Request steps_of_Cons)
    note ih = Cons.IH [OF fr [THEN conjunct1] fr [THEN conjunct2, THEN conjunct1] p3 p4 n1 p6]
    have sv: "serve env (m # sched) s = serve env sched s1"
      by (simp only: Request serve.simps s1_def)
    obtain new2 where n2: "job_q (shared (serve env sched s1)) = (rest @ new1) @ new2"
      using ih by blast
    have q: "\<exists>new. job_q (shared (serve env sched s1)) = rest @ new"
      using n2 by simp
    show ?thesis
      unfolding sv using ih fr q by simp
  next
    case (Thread k)
    have k: "k = i" using Cons.prems(3) Thread by simp
    define w' where "w' = (shared s)\<lparr>job_q := rest,
        trace := trace (shared s) @ [Processing (job_id j)]\<rparr>"
    have ws: "worker_step env (shared s) (threads s ! i) = (w', Transcribing j)"
      by (simp add: Cons.prems(4) Cons.prems(5) w'_def)
    define s1 where "s1 = s\<lparr>shared := w', threads := (threads s)[i := Transcribing j]\<rparr>"
    have st: "server_step env (Thread i) s = s1"
      unfolding s1_def using Cons.prems(1) ws by (rule thread_step)
    have sv: "serve env (m # sched) s = serve env sched s1"
      by (simp only: Thread k serve.simps st)
    have p1: "i < length (threads s1)" using Cons.prems(1) by (simp add: s1_def)
    have ti: "threads s1 ! i = Transcribing j" using Cons.prems(1) by (simp add: s1_def)
    have p2: "\<forall>k<length (threads s1). k \<noteq> i \<longrightarrow> current (threads s1 ! k) = []"
      using Cons.prems(2) by (simp add: s1_def)
    have p3: "\<forall>k. Thread k \<in> set sched \<longrightarrow> k = i" using Cons.prems(3) by simp
    have "steps_of i sched = 4" using Cons.prems(6) by (simp add: Thread k steps_of_Cons)
    then have p4: "due (threads s1 ! i) (steps_of i sched)" using ti by simp
    note fin = finish_in_due_steps [OF p1 p2 p3 p4, of env]
    have sh: "filter is_mark (trace (shared s1))
          = filter is_mark (trace (shared s)) @ [Processing (job_id j)]"
        "processing_ids (trace (shared s1)) = processing_ids (trace (shared s)) @ [job_id j]"
        "job_q (shared s1) = rest"
      by (simp_all add: s1_def w'_def processing_ids_append)
    show ?thesis
      unfolding sv using fin by (simp add: ti sh)
  qed
qed

text \<open>
  Five steps of a thread with nothing in between are one pass through the body of the loop
  of \<open>worker_loop\<close>.
\<close>

lemma five_steps_worker_iteration:
  assumes "i < length (threads s)" and "threads s ! i = Polling"
  shows "serve env [Thread i, Thread i, Thread i, Thread i, Thread i] s
     = s\<lparr>shared := snd (worker_iteration env (shared s)),
         threads := (threads s)[i := (case fst (worker_iteration env (shared s)) of
                                        Inl e \<Rightarrow> Ended | Inr u \<Rightarrow> Polling)]\<rparr>"
proof -
  have lu: "(threads s)[i := Polling] = threads s"
    using assms(2) by (metis list_update_id)
  define state_at where "state_at w pc = s\<lparr>shared := w, threads := (threads s)[i := pc]\<rparr>" for w pc
  have step: "server_step env (Thread i) (state_at w pc) = state_at (fst (worker_step env w pc))
      (snd (worker_step env w pc))" for w pc
    using assms(1) by (simp add: state_at_def case_prod_beta)
  have s0: "s = state_at (shared s) Polling"
    using lu by (simp add: state_at_def)
  show ?thesis
  proof (cases "job_q (shared s)")
    case Nil
    have p: "server_step env (Thread i) (state_at (shared s) Polling) = state_at (shared s) Polling"
      by (simp only: step) (simp add: Nil)
    have "serve env [Thread i, Thread i, Thread i, Thread i, Thread i] (state_at (shared s) Polling)
        = state_at (shared s) Polling"
      by (simp only: serve.simps p)
    then have "serve env [Thread i, Thread i, Thread i, Thread i, Thread i] s = s"
      by (simp only: s0 [symmetric])
    moreover have "s\<lparr>shared := snd (worker_iteration env (shared s)),
         threads := (threads s)[i := (case fst (worker_iteration env (shared s)) of
                                        Inl e \<Rightarrow> Ended | Inr u \<Rightarrow> Polling)]\<rparr> = s"
      by (simp add: worker_iteration_def Nil lu)
    ultimately show ?thesis by (simp only:)
  next
    case (Cons j rest)
    define w0 where "w0 = (shared s)\<lparr>job_q := rest, trace := trace (shared s) @ [Processing (job_id j)]\<rparr>"
    define tf where "tf = transcribe_file env w0 (audio_path j)"
    define transcript where
      "transcript = (case fst tf of Inl e \<Rightarrow> transcription_failed env e | Inr t \<Rightarrow> t)"
    define se where
      "se = send_email_with_fallback env (snd tf) (email j) (EMAIL_SUBJECT (job_id j))
              (email_body (job_id j) (filename j) transcript)
              [(''transcript_'' @ job_id j @ ''.txt'', transcript, ''text/plain'')]
              (Some (Transcript_fallback (job_id j)))"
    define w3 where "w3 = remove_if_exists env (snd se) (audio_path j)"
    have a1: "server_step env (Thread i) (state_at (shared s) Polling) = state_at w0 (Transcribing j)"
      by (simp only: step) (simp add: Cons w0_def)
    have a2: "server_step env (Thread i) (state_at w0 (Transcribing j)) = state_at (snd tf) (Notifying j transcript)"
      by (simp only: step) (simp add: tf_def transcript_def case_prod_beta)
    have wi: "worker_iteration env (shared s)
        = (case fst se of
             Inl e \<Rightarrow> (Inl e, (snd se)\<lparr>trace := trace (snd se) @ [Task_done]\<rparr>)
           | Inr x \<Rightarrow> (Inr (), w3\<lparr>trace := trace w3 @ [Task_done]\<rparr>))"
      by (simp add: worker_iteration_def Cons process_job_def Let_def case_prod_beta w0_def
          tf_def transcript_def se_def w3_def split: sum.splits)
    have ws: "worker_step env (snd tf) (Notifying j transcript)
        = (case se of (Inl e, w1) \<Rightarrow> (w1, Finishing j (Some e))
                    | (Inr ok_err, w1) \<Rightarrow> (w1, Cleaning j))"
      by (simp only: worker_step.simps se_def)
    show ?thesis
    proof (cases "fst se")
      case (Inl e)
      have "worker_step env (snd tf) (Notifying j transcript) = (snd se, Finishing j (Some e))"
        unfolding ws using Inl by (cases se) simp
      then have a3: "server_step env (Thread i) (state_at (snd tf) (Notifying j transcript))
          = state_at (snd se) (Finishing j (Some e))"
        by (simp only: step fst_conv snd_conv)
      have a4: "server_step env (Thread i) (state_at (snd se) (Finishing j (Some e)))
          = state_at ((snd se)\<lparr>trace := trace (snd se) @ [Task_done]\<rparr>) Ended"
        by (simp only: step) simp
      have a5: "server_step env (Thread i) (state_at ((snd se)\<lparr>trace := trace (snd se) @ [Task_done]\<rparr>) Ended)
          = state_at ((snd se)\<lparr>trace := trace (snd se) @ [Task_done]\<rparr>) Ended"
        by (simp only: step) simp
      have "serve env [Thread i, Thread i, Thread i, Thread i, Thread i] (state_at (shared s) Polling)
          = state_at ((snd se)\<lparr>trace := trace (snd se) @ [Task_done]\<rparr>) Ended"
        by (simp only: serve.simps a1 a2 a3 a4 a5)
      then have "serve env [Thread i, Thread i, Thread i, Thread i, Thread i] s = state_at ((snd se)\<lparr>trace := trace (snd se) @ [Task_done]\<rparr>) Ended"
        by (simp only: s0 [symmetric])
      moreover have "s\<lparr>shared := snd (worker_iteration env (shared s)),
           threads := (threads s)[i := (case fst (worker_iteration env (shared s)) of
                                          Inl e \<Rightarrow> Ended | Inr u \<Rightarrow> Polling)]\<rparr> = state_at ((snd se)\<lparr>trace := trace (snd se) @ [Task_done]\<rparr>) Ended"
        by (simp add: wi Inl state_at_def)
      ultimately show ?thesis by (simp only:)
    next
      case (Inr x)
      have "worker_step env (snd tf) (Notifying j transcript) = (snd se, Cleaning j)"
        unfolding ws using Inr by (cases se) simp
      then have a3: "server_step env (Thread i) (state_at (snd tf) (Notifying j transcript))
          = state_at (snd se) (Cleaning j)"
        by (simp only: step fst_conv snd_conv)
      have a4: "server_step env (Thread i) (state_at (snd se) (Cleaning j)) = state_at w3 (Finishing j None)"
        by (simp only: step) (simp add: w3_def)
      have a5: "server_step env (Thread i) (state_at w3 (Finishing j None))
          = state_at (w3\<lparr>trace := trace w3 @ [Task_done]\<rparr>) Polling"
        by (simp only: step) simp
      have "serve env [Thread i, Thread i, Thread i, Thread i, Thread i] (state_at (shared s) Polling)
          = state_at (w3\<lparr>trace := trace w3 @ [Task_done]\<rparr>) Polling"
        by (simp only: serve.simps a1 a2 a3 a4 a5)
      then have "serve env [Thread i, Thread i, Thread i, Thread i, Thread i] s = state_at (w3\<lparr>trace := trace w3 @ [Task_done]\<rparr>) Polling"
        by (simp only: s0 [symmetric])
      moreover have "s\<lparr>shared := snd (worker_iteration env (shared s)),
           threads := (threads s)[i := (case fst (worker_iteration env (shared s)) of
                                          Inl e \<Rightarrow> Ended | Inr u \<Rightarrow> Polling)]\<rparr> = state_at (w3\<lparr>trace := trace w3 @ [Task_done]\<rparr>) Polling"
        by (simp add: wi Inr state_at_def)
      ultimately show ?thesis by (simp only:)
    qed
  qed
qed

text \<open>An accepted request leaves its job state_at the end of the queue and a worker thread alive.\<close>

lemma accepted_request:
  assumes "fst (submit env (shared s) em fname upload) = Inr (Accepted m jid)"
  shows "(\<exists>j. job_id j = jid \<and> email j = em
            \<and> job_q (shared (server_step env (Request em fname upload) s)) = job_q (shared s) @ [j])
       \<and> (\<exists>i. WORKER_THREAD (server_step env (Request em fname upload) s) = Some i
            \<and> is_alive (server_step env (Request em fname upload) s) i)"
proof -
  obtain w' where su: "submit env (shared s) em fname upload = (Inr (Accepted m jid), w')"
    using assms by (cases "submit env (shared s) em fname upload") simp
  have st: "server_step env (Request em fname upload) s = start_worker (s\<lparr>shared := w'\<rparr>)"
    by (simp add: su)
  have "\<exists>j. job_id j = jid \<and> email j = em \<and> job_q w' = job_q (shared s) @ [j]"
    using submit_jobs [of env "shared s" em fname upload] by (auto simp: su)
  moreover have "shared (start_worker (s\<lparr>shared := w'\<rparr>)) = w'"
    by (simp add: start_worker_def)
  moreover have "\<exists>i. WORKER_THREAD (start_worker (s\<lparr>shared := w'\<rparr>)) = Some i
      \<and> is_alive (start_worker (s\<lparr>shared := w'\<rparr>)) i"
    by (cases "WORKER_THREAD s") (auto simp: start_worker_def is_alive_def)
  ultimately show ?thesis by (simp only: st)
qed

lemma thread_steps_only:
  "thread_steps sched = replicate n i
     \<Longrightarrow> (\<forall>k. Thread k \<in> set sched \<longrightarrow> k = i) \<and> steps_of i sched = n"
proof (induction sched arbitrary: n)
  case Nil
  then show ?case by (simp add: steps_of_def)
next
  case (Cons m sched)
  show ?case
  proof (cases m)
    case (Request em fname upload)
    then show ?thesis using Cons by (simp add: steps_of_def)
  next
    case (Thread k)
    then obtain n' where n: "n = Suc n'" "k = i" "thread_steps sched = replicate n' i"
      using Cons.prems by (cases n) auto
    then show ?thesis using Cons.IH [OF n(3)] Thread by (simp add: steps_of_def)
  qed
qed

text \<open>
  C7.  Let the process start with an empty queue and no worker thread, and let requests and
  steps of threads follow one another in any order, with any collaborators.  A step of a
  thread is one statement of the loop, so requests arrive at any point of the work on a job,
  however long that work takes.  In every state \<open>s\<close> that is reached:
  \<^item> at most one job is held by a thread: the jobs are processed one at a time;
  \<^item> the jobs begun, followed by the jobs in the queue, are the jobs enqueued, in the order
    of their enqueueing: the jobs are begun in the order of submission;
  \<^item> the jobs begun are jobs finished one by one (each \<open>Processing\<close> mark is followed by its
    \<open>task_done\<close> before the next \<open>Processing\<close> mark), followed by the job that is held, if
    there is one: a job is brought to its end before the next one is begun.

  And the work goes on:
  \<^item> a request that is accepted leaves its job at the end of the queue and a worker thread
    alive;
  \<^item> when the worker thread waits at \<open>job_q.get\<close> and the queue is \<open>j # rest\<close>, five steps of
    that thread, with any requests in between, begin \<open>j\<close> and bring it to its \<open>task_done\<close>;
    no other job is begun, and the jobs enqueued in the meantime stand behind \<open>rest\<close>;
  \<^item> five steps with nothing in between are \<open>worker_iteration\<close>, one pass through the body
    of the loop of \<open>worker_loop\<close>, and the thread is over exactly when that pass raised.
\<close>

theorem jobs_processed_first_in_first_out:
  fixes env :: env and w :: world and acts :: "move list"
  defines "s \<equiv> serve env acts (boot w)"
  shows "length (busy s) \<le> 1
       \<and> processing_ids (trace (shared s)) @ map job_id (job_q (shared s))
           = enqueued_ids (trace (shared s))
       \<and> (\<exists>finished.
             processing_ids (trace (shared s)) = finished @ map job_id (busy s)
             \<and> filter is_mark (trace (shared s))
                 = one_by_one finished @ map (\<lambda>j. Processing (job_id j)) (busy s))
       \<and> (\<forall>em fname upload m jid.
             fst (submit env (shared s) em fname upload) = Inr (Accepted m jid) \<longrightarrow>
               (\<exists>j. job_id j = jid \<and> email j = em
                  \<and> job_q (shared (server_step env (Request em fname upload) s))
                      = job_q (shared s) @ [j])
               \<and> (\<exists>i. WORKER_THREAD (server_step env (Request em fname upload) s) = Some i
                      \<and> is_alive (server_step env (Request em fname upload) s) i))
       \<and> (\<forall>i j rest sched.
             WORKER_THREAD s = Some i \<and> threads s ! i = Polling \<and> job_q (shared s) = j # rest
             \<and> thread_steps sched = [i, i, i, i, i] \<longrightarrow>
               filter is_mark (trace (shared (serve env sched s)))
                 = filter is_mark (trace (shared s)) @ [Processing (job_id j), Task_done]
               \<and> processing_ids (trace (shared (serve env sched s)))
                   = processing_ids (trace (shared s)) @ [job_id j]
               \<and> busy (serve env sched s) = []
               \<and> (\<exists>new. job_q (shared (serve env sched s)) = rest @ new)
               \<and> (threads (serve env sched s) ! i = Polling
                    \<or> threads (serve env sched s) ! i = Ended))
       \<and> (\<forall>i. WORKER_THREAD s = Some i \<and> threads s ! i = Polling \<longrightarrow>
             serve env [Thread i, Thread i, Thread i, Thread i, Thread i] s
               = s\<lparr>shared := snd (worker_iteration env (shared s)),
                    threads := (threads s)[i := (case fst (worker_iteration env (shared s)) of
                                                   Inl e \<Rightarrow> Ended | Inr u \<Rightarrow> Polling)]\<rparr>)"
proof -
  have o: "orderly s" unfolding s_def using orderly_boot by (rule orderly_serve)
  have len: "i < length (threads s)" if "WORKER_THREAD s = Some i" for i
    using orderlyD [OF o] that by blast
  have idle: "\<forall>k<length (threads s). k \<noteq> i \<longrightarrow> current (threads s ! k) = []"
    if "WORKER_THREAD s = Some i" for i
  proof (intro allI impI)
    fix k assume k: "k < length (threads s)" "k \<noteq> i"
    then have "WORKER_THREAD s \<noteq> Some k" using that by simp
    then have "threads s ! k = Ended" using orderlyD [OF o] k(1) by blast
    then show "current (threads s ! k) = []" by simp
  qed
  have c1: "length (busy s) \<le> 1" using o by (rule orderly_one_at_a_time)
  have c2: "processing_ids (trace (shared s)) @ map job_id (job_q (shared s))
      = enqueued_ids (trace (shared s))"
    using orderlyD [OF o] by blast
  have c3: "\<exists>finished.
      processing_ids (trace (shared s)) = finished @ map job_id (busy s)
      \<and> filter is_mark (trace (shared s))
          = one_by_one finished @ map (\<lambda>j. Processing (job_id j)) (busy s)"
    using orderlyD [OF o] by blast
  have c4: "(\<exists>j. job_id j = jid \<and> email j = em
                  \<and> job_q (shared (server_step env (Request em fname upload) s))
                      = job_q (shared s) @ [j])
               \<and> (\<exists>i. WORKER_THREAD (server_step env (Request em fname upload) s) = Some i
                      \<and> is_alive (server_step env (Request em fname upload) s) i)"
    if "fst (submit env (shared s) em fname upload) = Inr (Accepted m jid)"
    for em fname upload m jid
    using that by (rule accepted_request)
  have c5: "filter is_mark (trace (shared (serve env sched s)))
                 = filter is_mark (trace (shared s)) @ [Processing (job_id j), Task_done]
               \<and> processing_ids (trace (shared (serve env sched s)))
                   = processing_ids (trace (shared s)) @ [job_id j]
               \<and> busy (serve env sched s) = []
               \<and> (\<exists>new. job_q (shared (serve env sched s)) = rest @ new)
               \<and> (threads (serve env sched s) ! i = Polling
                    \<or> threads (serve env sched s) ! i = Ended)"
    if "WORKER_THREAD s = Some i \<and> threads s ! i = Polling \<and> job_q (shared s) = j # rest
             \<and> thread_steps sched = [i, i, i, i, i]"
    for i j rest sched
  proof -
    have h: "WORKER_THREAD s = Some i" "threads s ! i = Polling" "job_q (shared s) = j # rest"
      using that by blast+
    have "thread_steps sched = replicate 5 i" using that by (simp add: numeral_eq_Suc)
    then have "(\<forall>k. Thread k \<in> set sched \<longrightarrow> k = i) \<and> steps_of i sched = 5"
      by (rule thread_steps_only)
    then have h': "\<forall>k. Thread k \<in> set sched \<longrightarrow> k = i" "steps_of i sched = 5" by blast+
    show ?thesis
      using len [OF h(1)] idle [OF h(1)] h'(1) h(2) h(3) h'(2) by (rule head_job_processed)
  qed
  have c6: "serve env [Thread i, Thread i, Thread i, Thread i, Thread i] s
               = s\<lparr>shared := snd (worker_iteration env (shared s)),
                    threads := (threads s)[i := (case fst (worker_iteration env (shared s)) of
                                                   Inl e \<Rightarrow> Ended | Inr u \<Rightarrow> Polling)]\<rparr>"
    if "WORKER_THREAD s = Some i \<and> threads s ! i = Polling" for i
  proof -
    have h: "WORKER_THREAD s = Some i" "threads s ! i = Polling" using that by blast+
    show ?thesis using len [OF h(1)] h(2) by (rule five_steps_worker_iteration)
  qed
  show ?thesis
    using c1 c2 c3 c4 c5 c6 by blast
qed

text \<open>
  The theorem after two requests one after the other.  A third request is accepted behind
  them.  While the first job is being transcribed the third request arrives: the first job
  is brought to its end all the same, the second and the third wait in that order, and the
  next five steps of the worker process the second.  With nothing in between, the five
  steps on the first job transcribe the upload, send the transcript to its address and
  remove the upload.
\<close>

theorem jobs_processed_first_in_first_out_witness:
  "fst (submit env0 (shared (serve env0 two_requests (boot world0))) ''e@f'' ''c.wav'' (Audio [7]))
     = Inr (Accepted (accepted ''5'') ''5'')
   \<and> map job_id (job_q (shared (server_step env0 (Request ''e@f'' ''c.wav'' (Audio [7]))
                                   (serve env0 two_requests (boot world0)))))
     = [''1'', ''3'', ''5'']
   \<and> WORKER_THREAD (serve env0 two_requests (boot world0)) = Some 0
   \<and> threads (serve env0 two_requests (boot world0)) ! 0 = Polling
   \<and> job_q (shared (serve env0 two_requests (boot world0)))
     = [\<lparr>job_id = ''1'', email = ''a@b'', audio_path = Upload_path 0 ''.wav'',
          filename = ''a.wav'', submitted_at = 0\<rparr>,
        \<lparr>job_id = ''3'', email = ''c@d'', audio_path = Upload_path 2 ''.wav'',
          filename = ''b.wav'', submitted_at = 0\<rparr>]
   \<and> thread_steps one_job_through = [0, 0, 0, 0, 0]
   \<and> filter is_mark (trace (shared (serve env0 one_job_through
                                        (serve env0 two_requests (boot world0)))))
     = [Processing ''1'', Task_done]
   \<and> busy (serve env0 one_job_through (serve env0 two_requests (boot world0))) = []
   \<and> map job_id (job_q (shared (serve env0 one_job_through
                                    (serve env0 two_requests (boot world0)))))
     = [''3'', ''5'']
   \<and> filter is_mark (trace (shared (serve env0 [Thread 0, Thread 0, Thread 0, Thread 0, Thread 0]
                                   (serve env0 one_job_through
                                      (serve env0 two_requests (boot world0))))))
     = [Processing ''1'', Task_done, Processing ''3'', Task_done]
   \<and> trace (shared (serve env0 [Thread 0, Thread 0, Thread 0, Thread 0, Thread 0]
                      (serve env0 two_requests (boot world0))))
     = [Write_attempt (Upload_path 0 ''.wav'') (Audio [1, 2, 3]), Enqueued ''1'',
        Write_attempt (Upload_path 2 ''.wav'') (Audio [4, 5, 6]), Enqueued ''3'',
        Processing ''1'',
        Write_attempt (Whisper_input 4) (Audio [1, 2, 3]), Remove_attempt (Whisper_input 4),
        Smtp_attempt \<lparr>msg_from = ''no-reply@example.com'', msg_to = ''a@b'',
                       msg_subject = EMAIL_SUBJECT ''1'',
                       msg_body = email_body ''1'' ''a.wav'' (single_summary env0 3 @ nl2 @ ''hello''),
                       msg_attachments = [(''transcript_1.txt'',
                                           single_summary env0 3 @ nl2 @ ''hello'',
                                           ''text'', ''plain'')]\<rparr>,
        Remove_attempt (Upload_path 0 ''.wav''), Task_done]"
proof -
  define S where "S = serve env0 two_requests (boot world0)"
  define j1 where "j1 = \<lparr>job_id = ''1'', email = ''a@b'', audio_path = Upload_path 0 ''.wav'',
          filename = ''a.wav'', submitted_at = 0\<rparr>"
  define j2 where "j2 = \<lparr>job_id = ''3'', email = ''c@d'', audio_path = Upload_path 2 ''.wav'',
          filename = ''b.wav'', submitted_at = 0\<rparr>"
  have a: "fst (submit env0 (shared S) ''e@f'' ''c.wav'' (Audio [7]))
     = Inr (Accepted (accepted ''5'') ''5'')"
    unfolding S_def by code_simp
  have w0: "WORKER_THREAD S = Some 0" unfolding S_def by code_simp
  have t0: "threads S ! 0 = Polling" unfolding S_def by code_simp
  have q0: "job_q (shared S) = j1 # [j2]" unfolding S_def j1_def j2_def by code_simp
  have m0: "filter is_mark (trace (shared S)) = []" unfolding S_def by code_simp
  have ts: "thread_steps one_job_through = [0, 0, 0, 0, 0]" by code_simp
  have q1: "map job_id (job_q (shared (serve env0 one_job_through S))) = [''3'', ''5'']"
    unfolding S_def by code_simp
  have b1: "busy (serve env0 one_job_through S) = []"
    unfolding S_def by code_simp
  have m2: "filter is_mark (trace (shared (serve env0 [Thread 0, Thread 0, Thread 0, Thread 0, Thread 0]
                                   (serve env0 one_job_through S))))
     = [Processing ''1'', Task_done, Processing ''3'', Task_done]"
    unfolding S_def by code_simp
  have tr: "trace (shared (serve env0 [Thread 0, Thread 0, Thread 0, Thread 0, Thread 0] S))
     = [Write_attempt (Upload_path 0 ''.wav'') (Audio [1, 2, 3]), Enqueued ''1'',
        Write_attempt (Upload_path 2 ''.wav'') (Audio [4, 5, 6]), Enqueued ''3'',
        Processing ''1'',
        Write_attempt (Whisper_input 4) (Audio [1, 2, 3]), Remove_attempt (Whisper_input 4),
        Smtp_attempt \<lparr>msg_from = ''no-reply@example.com'', msg_to = ''a@b'',
                       msg_subject = EMAIL_SUBJECT ''1'',
                       msg_body = email_body ''1'' ''a.wav'' (single_summary env0 3 @ nl2 @ ''hello''),
                       msg_attachments = [(''transcript_1.txt'',
                                           single_summary env0 3 @ nl2 @ ''hello'',
                                           ''text'', ''plain'')]\<rparr>,
        Remove_attempt (Upload_path 0 ''.wav''), Task_done]"
    unfolding S_def by code_simp
  note T = jobs_processed_first_in_first_out [of env0 two_requests world0, folded S_def]
  have "\<exists>j. job_id j = ''5'' \<and> email j = ''e@f''
      \<and> job_q (shared (server_step env0 (Request ''e@f'' ''c.wav'' (Audio [7])) S))
          = job_q (shared S) @ [j]"
    using T a by blast
  then have q3: "map job_id (job_q (shared (server_step env0 (Request ''e@f'' ''c.wav'' (Audio [7])) S)))
      = [''1'', ''3'', ''5'']"
    by (auto simp: q0 j1_def j2_def)
  have h: "WORKER_THREAD S = Some 0 \<and> threads S ! 0 = Polling \<and> job_q (shared S) = j1 # [j2]
      \<and> thread_steps one_job_through = [0, 0, 0, 0, 0]"
    using w0 t0 q0 ts by blast
  have "filter is_mark (trace (shared (serve env0 one_job_through S)))
      = filter is_mark (trace (shared S)) @ [Processing (job_id j1), Task_done]"
    using T h by blast
  then have m1: "filter is_mark (trace (shared (serve env0 one_job_through S)))
      = [Processing ''1'', Task_done]"
    by (simp add: m0 j1_def)
  show ?thesis
    using a q3 w0 t0 q0 ts m1 b1 q1 m2 tr unfolding S_def j1_def j2_def by (intro conjI)
qed

section \<open>The result of transcribing a stored recording\<close>

text \<open>
  The count of \<open>range(0, duration_ms, seg_len_ms)\<close> is the ceiling of the quotient, and its
  elements are the multiples of the segment length.
\<close>

lemma small_div: "0 < (L::int) \<Longrightarrow> x < L \<Longrightarrow> x div L \<le> 0"
proof -
  assume L: "0 < L" and x: "x < L"
  have "x div L \<le> (L - 1) div L" using x L by (intro zdiv_mono1) simp_all
  also have "(L - 1) div L = 0" using L by (simp add: div_pos_pos_trivial)
  finally show ?thesis .
qed

lemma range_up_map:
  "0 < L \<Longrightarrow> range_up i stop L = map (\<lambda>k. i + int k * L) [0..<nat ((stop - i + L - 1) div L)]"
proof (induction i stop L rule: range_up.induct)
  case (1 i stop L)
  show ?case
  proof (cases "i < stop")
    case True
    let ?n = "nat ((stop - i + L - 1) div L)"
    let ?m = "nat ((stop - (i + L) + L - 1) div L)"
    have "stop - i + L - 1 = (stop - (i + L) + L - 1) + L" by simp
    then have "(stop - i + L - 1) div L = ((stop - (i + L) + L - 1) + L) div L"
      by (rule arg_cong [where f = "\<lambda>x. x div L"])
    also have "\<dots> = (stop - (i + L) + L - 1) div L + 1"
      using 1(2) by simp
    finally have d: "(stop - i + L - 1) div L = (stop - (i + L) + L - 1) div L + 1" .
    have "0 \<le> (stop - (i + L) + L - 1) div L"
      using True 1(2) by (simp add: pos_imp_zdiv_nonneg_iff)
    with d have n: "?n = Suc ?m" by simp
    have ih: "range_up (i + L) stop L = map (\<lambda>k. i + L + int k * L) [0..<?m]"
      using 1(1) True 1(2) by simp
    have "range_up i stop L = i # range_up (i + L) stop L"
      using True 1(2) by (subst range_up.simps) simp
    also have "\<dots> = map (\<lambda>k. i + int k * L) [0..<Suc ?m]"
      unfolding ih by (simp add: upt_conv_Cons map_Suc_upt[symmetric] algebra_simps del: upt_Suc)
    finally show ?thesis using n by simp
  next
    case False
    then have "stop - i + L - 1 < L" by simp
    then have "(stop - i + L - 1) div L \<le> 0"
      using 1(2) small_div by blast
    then show ?thesis using False by (subst range_up.simps) simp
  qed
qed

lemma ceil_div:
  fixes a b :: int
  assumes "0 < b"
  shows "- (- a div b) = (a + b - 1) div b"
proof -
  define q r where "q = a div b" and "r = a mod b"
  have a: "a = b * q + r" by (simp add: q_def r_def)
  have r0: "0 \<le> r" unfolding r_def using assms by (rule pos_mod_sign)
  have rb: "r < b" unfolding r_def using assms by (rule pos_mod_bound)
  show ?thesis
  proof (cases "r = 0")
    case True
    have "a + b - 1 = b * q + (b - 1)" using a True by simp
    then have "(a + b - 1) div b = q"
      by (rule int_div_pos_eq) (use assms in simp_all)
    moreover have "- a = b * (- q) + 0" using a True by simp
    then have "- a div b = - q"
      by (rule int_div_pos_eq) (use assms in simp_all)
    ultimately show ?thesis by simp
  next
    case False
    have "a + b - 1 = b * (q + 1) + (r - 1)" using a by (simp add: algebra_simps)
    then have "(a + b - 1) div b = q + 1"
      by (rule int_div_pos_eq) (use False r0 rb in simp_all)
    moreover have "- a = b * (- q - 1) + (b - r)" using a by (simp add: algebra_simps)
    then have "- a div b = - q - 1"
      by (rule int_div_pos_eq) (use False r0 rb in simp_all)
    ultimately show ?thesis by simp
  qed
qed

lemma ceiling_chunks:
  assumes "0 < seg"
  shows "nat \<lceil>duration_s n / real_of_int seg\<rceil> = nat ((int n - 0 + seg * 1000 - 1) div (seg * 1000))"
proof -
  have "duration_s n / real_of_int seg = real_of_int (int n) / real_of_int (seg * 1000)"
    by (simp add: duration_s_def)
  then have "\<lceil>duration_s n / real_of_int seg\<rceil> = - (- int n div (seg * 1000))"
    by (simp only: ceiling_divide_eq_div)
  also have "\<dots> = (int n + seg * 1000 - 1) div (seg * 1000)"
    using assms by (simp add: ceil_div)
  finally show ?thesis by simp
qed

text \<open>
  When no write is refused, \<open>split_audio_to_files\<close> writes one file per window, in order, and
  touches no other file; the loop over the segments then reads each file before it removes it.
\<close>

lemma list_eq_map_upt:
  "length xs = n \<Longrightarrow> (\<And>k. k < n \<Longrightarrow> xs ! k = f k) \<Longrightarrow> xs = map f [0..<n]"
  by (rule nth_equalityI) simp_all

lemma export_chunks_ok:
  assumes "\<And>q. write_error env q = None"
  shows "\<exists>ps w'. export_chunks env a d L ts i starts w = (Inr ps, w')
      \<and> length ps = length starts
      \<and> (\<forall>k<length starts. ps ! k = Whisper_chunk ts (next_uuid w + k) (i + k)
            \<and> fs w' (ps ! k) = Some (Audio (slice a (starts ! k) (min (starts ! k + L) d))))
      \<and> (\<forall>q. q \<notin> set ps \<longrightarrow> fs w' q = fs w q)"
proof (induction starts arbitrary: i w)
  case Nil
  then show ?case by simp
next
  case (Cons s starts)
  define p0 where "p0 = Whisper_chunk ts (next_uuid w) i"
  define c0 where "c0 = Audio (slice a s (min (s + L) d))"
  define w2 where "w2 = w\<lparr>next_uuid := Suc (next_uuid w),
                          trace := trace w @ [Write_attempt p0 c0],
                          fs := (fs w)(p0 \<mapsto> c0)\<rparr>"
  have wf: "write_file env (w\<lparr>next_uuid := Suc (next_uuid w)\<rparr>) p0 c0 = (Inr (), w2)"
    by (simp add: write_file_def Let_def assms w2_def)
  obtain ps w' where rc: "export_chunks env a d L ts (Suc i) starts w2 = (Inr ps, w')"
    and len: "length ps = length starts"
    and nth: "\<And>k. k < length starts \<Longrightarrow> ps ! k = Whisper_chunk ts (next_uuid w2 + k) (Suc i + k)
            \<and> fs w' (ps ! k) = Some (Audio (slice a (starts ! k) (min (starts ! k + L) d)))"
    and other: "\<And>q. q \<notin> set ps \<Longrightarrow> fs w' q = fs w2 q"
    using Cons.IH [of "Suc i" w2] by blast
  have ex: "export_chunks env a d L ts i (s # starts) w = (Inr (p0 # ps), w')"
    using wf rc by (simp add: Let_def p0_def [symmetric] c0_def [symmetric])
  have notin: "p0 \<notin> set ps"
  proof
    assume "p0 \<in> set ps"
    then obtain k where "k < length ps" "ps ! k = p0" by (auto simp: in_set_conv_nth)
    then show False using nth [of k] len by (simp add: p0_def)
  qed
  have fs0: "fs w' p0 = Some c0" using other [OF notin] by (simp add: w2_def)
  have n: "next_uuid w2 = Suc (next_uuid w)" by (simp add: w2_def)
  have pt: "(p0 # ps) ! k = Whisper_chunk ts (next_uuid w + k) (i + k)
            \<and> fs w' ((p0 # ps) ! k)
                = Some (Audio (slice a ((s # starts) ! k) (min ((s # starts) ! k + L) d)))"
    if "k < length (s # starts)" for k
  proof (cases k)
    case 0
    then show ?thesis using fs0 by (simp add: p0_def c0_def)
  next
    case (Suc k')
    then have "k' < length starts" using that by simp
    then have AB: "ps ! k' = Whisper_chunk ts (next_uuid w2 + k') (Suc i + k')
        \<and> fs w' (ps ! k') = Some (Audio (slice a (starts ! k') (min (starts ! k' + L) d)))"
      by (rule nth)
    note A = AB [THEN conjunct1] and B = AB [THEN conjunct2]
    have "(p0 # ps) ! k = ps ! k'" using Suc by simp
    moreover have "(s # starts) ! k = starts ! k'" using Suc by simp
    moreover have "Whisper_chunk ts (next_uuid w2 + k') (Suc i + k')
        = Whisper_chunk ts (next_uuid w + k) (i + k)" using Suc n by simp
    ultimately show ?thesis using A B by (simp only:)
  qed
  have ot: "fs w' q = fs w q" if "q \<notin> set (p0 # ps)" for q
  proof -
    have "fs w' q = fs w2 q" using that other by simp
    also have "\<dots> = fs w q" using that by (simp add: w2_def)
    finally show ?thesis .
  qed
  have len': "length (p0 # ps) = length (s # starts)" using len by simp
  have "export_chunks env a d L ts i (s # starts) w = (Inr (p0 # ps), w')
      \<and> length (p0 # ps) = length (s # starts)
      \<and> (\<forall>k<length (s # starts). (p0 # ps) ! k = Whisper_chunk ts (next_uuid w + k) (i + k)
            \<and> fs w' ((p0 # ps) ! k)
                = Some (Audio (slice a ((s # starts) ! k) (min ((s # starts) ! k + L) d))))
      \<and> (\<forall>q. q \<notin> set (p0 # ps) \<longrightarrow> fs w' q = fs w q)"
    using ex len' pt ot by blast
  then show ?case by blast
qed

lemma transcribe_chunk_audio:
  "fs w p = Some (Audio c) \<Longrightarrow>
   (case transcribe_chunk env w p of Inl e \<Rightarrow> chunk_error idx e | Inr t \<Rightarrow> t)
     = chunk_text env idx p c"
  by (simp add: transcribe_chunk_def model_transcribe_def from_file_def chunk_text_def
      split: sum.splits)

lemma transcribe_chunks_parts:
  assumes "distinct ps" and "length cs = length ps"
    and "\<And>k. k < length ps \<Longrightarrow> fs w (ps ! k) = Some (Audio (cs ! k))"
  shows "length (fst (transcribe_chunks env idx ps w)) = length ps
      \<and> (\<forall>k<length ps. fst (transcribe_chunks env idx ps w) ! k
             = chunk_text env (idx + k) (ps ! k) (cs ! k))"
  using assms
proof (induction ps arbitrary: idx w cs)
  case Nil
  then show ?case by simp
next
  case (Cons p ps)
  obtain c cs' where cs: "cs = c # cs'" using Cons.prems(2) by (cases cs) auto
  define w1 where "w1 = snd (os_remove env w p)"
  have f0: "fs w p = Some (Audio c)" using Cons.prems(3) [of 0] cs by simp
  have d: "distinct ps" and np: "p \<notin> set ps" using Cons.prems(1) by simp_all
  have l: "length cs' = length ps" using Cons.prems(2) cs by simp
  have f1: "fs w1 (ps ! k) = Some (Audio (cs' ! k))" if "k < length ps" for k
  proof -
    have "ps ! k \<noteq> p" using that np by (metis nth_mem)
    then have "fs w1 (ps ! k) = fs w (ps ! k)" unfolding w1_def by (rule fs_os_remove_other)
    also have "\<dots> = Some (Audio (cs' ! k))" using Cons.prems(3) [of "Suc k"] that cs by simp
    finally show ?thesis .
  qed
  have ih: "length (fst (transcribe_chunks env (Suc idx) ps w1)) = length ps
      \<and> (\<forall>k<length ps. fst (transcribe_chunks env (Suc idx) ps w1) ! k
             = chunk_text env (Suc idx + k) (ps ! k) (cs' ! k))"
    using d l f1 by (rule Cons.IH)
  have eq: "fst (transcribe_chunks env idx (p # ps) w)
      = chunk_text env idx p c # fst (transcribe_chunks env (Suc idx) ps w1)"
    by (simp add: Let_def w1_def [symmetric] transcribe_chunk_audio [OF f0] split: prod.splits)
  have pt: "fst (transcribe_chunks env idx (p # ps) w) ! k
             = chunk_text env (idx + k) ((p # ps) ! k) (cs ! k)"
    if "k < length (p # ps)" for k
  proof (cases k)
    case 0
    show ?thesis unfolding eq using 0 cs by simp
  next
    case (Suc k')
    then have "k' < length ps" using that by simp
    then have "fst (transcribe_chunks env (Suc idx) ps w1) ! k'
        = chunk_text env (Suc idx + k') (ps ! k') (cs' ! k')" using ih by blast
    then show ?thesis unfolding eq using Suc cs by simp
  qed
  have "length (fst (transcribe_chunks env idx (p # ps) w)) = length (p # ps)"
    unfolding eq using ih by simp
  then show ?case using pt by blast
qed

text \<open>The slices that \<open>split_audio_to_files\<close> takes are the windows.\<close>

lemma slice_window:
  assumes "0 < L"
  shows "slice a (int k * L) (min (int k * L + L) (int (length a))) = window a L k"
proof -
  have n: "nat (int k * L) = k * nat L" using assms by (simp add: nat_mult_distrib)
  have "min (int k * L + L) (int (length a)) - int k * L = min L (int (length a) - int k * L)"
    by simp
  then have "nat (min (int k * L + L) (int (length a)) - int k * L)
      = min (nat L) (nat (int (length a) - int k * L))" by simp
  also have "nat (int (length a) - int k * L) = length a - k * nat L"
    using n by (metis nat_diff_distrib' nat_int of_nat_0_le_iff mult_nonneg_nonneg assms less_imp_le)
  finally have m: "nat (min (int k * L + L) (int (length a)) - int k * L)
      = min (nat L) (length a - k * nat L)" .
  have "take (min (nat L) (length a - k * nat L)) (drop (k * nat L) a)
      = take (nat L) (drop (k * nat L) a)"
    by (cases "nat L \<le> length a - k * nat L") (simp_all add: min_def)
  then show ?thesis by (simp add: slice_def window_def n m)
qed

lemma split_audio_to_files_ok:
  assumes "\<And>q. write_error env q = None"
    and "fs w wav = Some (Audio a)"
    and "0 < seg"
  shows "\<exists>ps w'. split_audio_to_files env w wav seg = (Inr ps, w')
      \<and> length ps = nat \<lceil>duration_s (length a) / real_of_int seg\<rceil>
      \<and> (\<forall>k<length ps. ps ! k = Whisper_chunk (now env) (next_uuid w + k) k
            \<and> fs w' (ps ! k) = Some (Audio (window a (seg * 1000) k)))
      \<and> (\<forall>q. q \<notin> set ps \<longrightarrow> fs w' q = fs w q)"
proof -
  define L where "L = seg * 1000"
  define d where "d = int (length a)"
  define n where "n = nat ((d - 0 + L - 1) div L)"
  define starts where "starts = map (\<lambda>k. 0 + int k * L) [0..<n]"
  have L: "0 < L" using assms(3) by (simp add: L_def)
  have r: "py_range 0 d L = Inr starts"
    using L range_up_map [OF L, of 0 d] by (simp add: py_range_def starts_def n_def)
  have sp: "split_audio_to_files env w wav seg = export_chunks env a d L (now env) 0 starts w"
    using assms(2) r by (simp add: split_audio_to_files_def from_file_def Let_def L_def d_def)
  have ls: "length starts = n" by (simp add: starts_def)
  have cn: "nat \<lceil>duration_s (length a) / real_of_int seg\<rceil> = n"
    using ceiling_chunks [OF assms(3), of "length a"] by (simp add: n_def d_def L_def)
  obtain ps w' where ex: "export_chunks env a d L (now env) 0 starts w = (Inr ps, w')"
    and len: "length ps = length starts"
    and nth: "\<And>k. k < length starts \<Longrightarrow> ps ! k = Whisper_chunk (now env) (next_uuid w + k) (0 + k)
            \<and> fs w' (ps ! k) = Some (Audio (slice a (starts ! k) (min (starts ! k + L) d)))"
    and other: "\<And>q. q \<notin> set ps \<Longrightarrow> fs w' q = fs w q"
    using export_chunks_ok [OF assms(1), of a d L "now env" 0 starts w] by blast
  have pt: "ps ! k = Whisper_chunk (now env) (next_uuid w + k) k
            \<and> fs w' (ps ! k) = Some (Audio (window a (seg * 1000) k))"
    if "k < length ps" for k
  proof -
    have k: "k < length starts" using that len by simp
    then have "starts ! k = int k * L" using ls by (simp add: starts_def)
    then have sw: "slice a (starts ! k) (min (starts ! k + L) d) = window a L k"
      using slice_window [OF L, of a k] by (simp add: d_def)
    note AB = nth [OF k]
    have "ps ! k = Whisper_chunk (now env) (next_uuid w + k) k"
      using AB [THEN conjunct1] by simp
    moreover have "fs w' (ps ! k) = Some (Audio (window a (seg * 1000) k))"
      using AB [THEN conjunct2] sw by (simp only: L_def)
    ultimately show ?thesis by (rule conjI)
  qed
  have "split_audio_to_files env w wav seg = (Inr ps, w')
      \<and> length ps = nat \<lceil>duration_s (length a) / real_of_int seg\<rceil>"
    using sp ex len ls cn by simp
  then show ?thesis using pt other by blast
qed

text \<open>
  The transcript of the chunked branch and of the single-pass branch, as functions of the
  recording and of the answers of the model.
\<close>

lemma chunked_pass_ok:
  assumes "\<And>q. write_error env q = None"
    and "fs w wav = Some (Audio a)"
    and "0 < SEG_LEN_SECONDS env"
  shows "fst (chunked_pass env w wav ms)
      = Inr (chunked_summary env (nat \<lceil>duration_s (length a) / real_of_int (SEG_LEN_SECONDS env)\<rceil>) ms
             @ nl2
             @ str_join nl2 (filter (\<lambda>t. t \<noteq> [])
                 (map (\<lambda>k. chunk_text env (Suc k) (Whisper_chunk (now env) (next_uuid w + k) k)
                                (window a (SEG_LEN_SECONDS env * 1000) k))
                      [0..<nat \<lceil>duration_s (length a) / real_of_int (SEG_LEN_SECONDS env)\<rceil>])))"
proof -
  define n where "n = nat \<lceil>duration_s (length a) / real_of_int (SEG_LEN_SECONDS env)\<rceil>"
  define L where "L = SEG_LEN_SECONDS env * 1000"
  obtain ps w' where sp: "split_audio_to_files env w wav (SEG_LEN_SECONDS env) = (Inr ps, w')"
    and len: "length ps = n"
    and nth: "\<And>k. k < length ps \<Longrightarrow> ps ! k = Whisper_chunk (now env) (next_uuid w + k) k
            \<and> fs w' (ps ! k) = Some (Audio (window a L k))"
    unfolding n_def L_def
    using split_audio_to_files_ok [OF assms(1) assms(2) assms(3)] by blast
  have p: "ps ! k = Whisper_chunk (now env) (next_uuid w + k) k" if "k < length ps" for k
    using nth [OF that] by (rule conjunct1)
  have f: "fs w' (ps ! k) = Some (Audio (window a L k))" if "k < length ps" for k
    using nth [OF that] by (rule conjunct2)
  have dist: "distinct ps"
    unfolding distinct_conv_nth
  proof (intro allI impI)
    fix i j assume "i < length ps" "j < length ps" "i \<noteq> j"
    then show "ps ! i \<noteq> ps ! j" using p [of i] p [of j] by simp
  qed
  define cs where "cs = map (window a L) [0..<n]"
  have lc: "length cs = length ps" by (simp add: cs_def len)
  have fc: "fs w' (ps ! k) = Some (Audio (cs ! k))" if "k < length ps" for k
    using f [OF that] that len by (simp add: cs_def)
  define parts where "parts = fst (transcribe_chunks env 1 ps w')"
  have lp: "length parts = n"
    and np: "\<And>k. k < length ps \<Longrightarrow> parts ! k = chunk_text env (1 + k) (ps ! k) (cs ! k)"
    unfolding parts_def
    using transcribe_chunks_parts [OF dist lc fc, of env 1] len by blast+
  have "parts ! k = chunk_text env (Suc k) (Whisper_chunk (now env) (next_uuid w + k) k)
                      (window a L k)" if "k < n" for k
    using np [of k] p [of k] that len by (simp add: cs_def)
  with lp have pm: "parts = map (\<lambda>k. chunk_text env (Suc k)
        (Whisper_chunk (now env) (next_uuid w + k) k) (window a L k)) [0..<n]"
    by (rule list_eq_map_upt)
  have "fst (chunked_pass env w wav ms)
      = Inr (chunked_summary env (length ps) ms @ nl2
             @ str_join nl2 (filter (\<lambda>t. t \<noteq> []) parts))"
    by (simp add: chunked_pass_def sp Let_def parts_def split: prod.splits)
  then show ?thesis
    unfolding pm len n_def L_def .
qed

lemma ensure_wav_copy_ok:
  assumes "write_error env (Whisper_input (next_uuid w)) = None"
    and "fs w p = Some (Audio a)"
  shows "ensure_wav_copy env w p
      = (Inr (Whisper_input (next_uuid w), length a),
         w\<lparr>next_uuid := Suc (next_uuid w),
           trace := trace w @ [Write_attempt (Whisper_input (next_uuid w)) (Audio a)],
           fs := (fs w)(Whisper_input (next_uuid w) \<mapsto> Audio a)\<rparr>)"
  using assms by (simp add: ensure_wav_copy_def Let_def from_file_def write_file_def)

lemma transcribe_file_chunked:
  assumes "\<And>q. write_error env q = None"
    and "fs w p = Some (Audio a)"
    and "0 < SEG_LEN_SECONDS env"
    and "real_of_int (CHUNK_THRESHOLD_S env) < duration_s (length a)"
  shows "fst (transcribe_file env w p)
      = Inr (chunked_summary env (nat \<lceil>duration_s (length a) / real_of_int (SEG_LEN_SECONDS env)\<rceil>)
               (length a)
             @ nl2
             @ str_join nl2 (filter (\<lambda>t. t \<noteq> [])
                 (map (\<lambda>k. chunk_text env (Suc k) (chunk_path env (next_uuid w) k)
                                (window a (SEG_LEN_SECONDS env * 1000) k))
                      [0..<nat \<lceil>duration_s (length a) / real_of_int (SEG_LEN_SECONDS env)\<rceil>])))"
proof -
  define wav where "wav = Whisper_input (next_uuid w)"
  define w1 where "w1 = w\<lparr>next_uuid := Suc (next_uuid w),
           trace := trace w @ [Write_attempt wav (Audio a)],
           fs := (fs w)(wav \<mapsto> Audio a)\<rparr>"
  have e: "ensure_wav_copy env w p = (Inr (wav, length a), w1)"
    unfolding wav_def w1_def using assms(1) assms(2) by (rule ensure_wav_copy_ok)
  have f1: "fs w1 wav = Some (Audio a)" by (simp add: w1_def)
  have n1: "next_uuid w1 = Suc (next_uuid w)" by (simp add: w1_def)
  have "fst (transcribe_file env w p) = fst (chunked_pass env w1 wav (length a))"
    using assms(4) by (simp add: transcribe_file_def e split: prod.splits)
  also note chunked_pass_ok [OF assms(1) f1 assms(3), of "length a"]
  finally show ?thesis by (simp add: n1 chunk_path_def)
qed

lemma transcribe_file_single:
  assumes "write_error env (Whisper_input (next_uuid w)) = None"
    and "fs w p = Some (Audio a)"
    and "duration_s (length a) \<le> real_of_int (CHUNK_THRESHOLD_S env)"
  shows "fst (transcribe_file env w p)
      = (case whisper env (Whisper_input (next_uuid w)) a of
           Inl e \<Rightarrow> Inl e
         | Inr t \<Rightarrow> Inr (single_summary env (length a) @ nl2 @ strip t))"
  using assms(3)
  by (simp add: transcribe_file_def ensure_wav_copy_ok [OF assms(1) assms(2)] single_pass_def
      model_transcribe_def from_file_def split: sum.splits)

lemma length_window:
  "length (window a L k) = min (nat L) (length a - k * nat L)"
  by (simp add: window_def min.commute)

lemma below_count:
  fixes L d :: int
  assumes "0 < L" and "int k < (d + L - 1) div L"
  shows "int k * L < d"
proof -
  have "int k + 1 \<le> (d + L - 1) div L" using assms(2) by simp
  then have "(int k + 1) * L \<le> (d + L - 1) div L * L"
    using assms(1) by (intro mult_right_mono) simp_all
  also have "\<dots> = (d + L - 1) - (d + L - 1) mod L"
    by (simp add: minus_mod_eq_div_mult)
  also have "\<dots> \<le> d + L - 1"
    using pos_mod_sign [OF assms(1), of "d + L - 1"] by simp
  finally show ?thesis by (simp add: algebra_simps)
qed

text \<open>Every window is non-empty, and every window but the last has the full length.\<close>

lemma window_lengths:
  assumes "0 < seg" and "k < nat \<lceil>duration_s (length a) / real_of_int seg\<rceil>"
  shows "0 < length (window a (seg * 1000) k)
       \<and> (Suc k < nat \<lceil>duration_s (length a) / real_of_int seg\<rceil>
            \<longrightarrow> length (window a (seg * 1000) k) = nat (seg * 1000))"
proof -
  define L where "L = seg * 1000"
  define d where "d = int (length a)"
  have L: "0 < L" using assms(1) by (simp add: L_def)
  have n: "nat \<lceil>duration_s (length a) / real_of_int seg\<rceil> = nat ((d + L - 1) div L)"
    using ceiling_chunks [OF assms(1), of "length a"] by (simp add: L_def d_def)
  have below: "j * nat L < length a" if j: "j < nat ((d + L - 1) div L)" for j
  proof -
    have "int j < (d + L - 1) div L" using j by simp
    then have "int j * L < d" using L by (intro below_count)
    moreover have "int (j * nat L) = int j * L" using L by simp
    ultimately have "int (j * nat L) < int (length a)" by (simp only: d_def)
    then show ?thesis by (simp only: of_nat_less_iff)
  qed
  have "k < nat ((d + L - 1) div L)" using assms(2) by (simp only: n)
  then have k: "k * nat L < length a" by (rule below)
  have nl: "0 < nat L" using L by simp
  have len: "length (window a L k) = min (nat L) (length a - k * nat L)"
    by (rule length_window)
  have p: "0 < length (window a L k)" using k nl by (simp add: len)
  have f: "length (window a L k) = nat L"
    if "Suc k < nat \<lceil>duration_s (length a) / real_of_int seg\<rceil>"
  proof -
    have "Suc k < nat ((d + L - 1) div L)" using that by (simp only: n)
    then have "Suc k * nat L < length a" by (rule below)
    then have "nat L \<le> length a - k * nat L" by simp
    then show ?thesis by (simp add: len)
  qed
  show ?thesis using p f unfolding L_def by blast
qed

section \<open>The two branches of \<open>transcribe_file\<close>\<close>

text \<open>
  C2.  Let \<open>d\<close> be the measured duration of a stored recording, in an environment where the
  file system accepts the writes and the segment length is positive.  If \<open>d\<close> is at most
  \<open>CHUNK_THRESHOLD_S\<close>, \<open>transcribe_file\<close> takes the single-pass branch: the model is called
  once, on the whole working file, and the result is the single-pass summary followed by
  the stripped answer.  If \<open>d\<close> is above \<open>CHUNK_THRESHOLD_S\<close>, it takes the chunked branch:
  the result carries the chunked summary with \<open>n = \<lceil>d / SEG_LEN_SECONDS\<rceil>\<close> segments, the
  split of the working file produces exactly \<open>n\<close> files, the k-th one holds the k-th
  window of \<open>SEG_LEN_SECONDS\<close> seconds, no window is empty, and every window but the last
  has the full length; the last one stops at the end of the recording.
\<close>

theorem transcribe_file_branch:
  fixes env :: env and a :: audio
  defines "n \<equiv> nat \<lceil>duration_s (length a) / real_of_int (SEG_LEN_SECONDS env)\<rceil>"
    and "seg_len_ms \<equiv> SEG_LEN_SECONDS env * 1000"
  assumes "\<forall>q. write_error env q = None"
    and "fs w p = Some (Audio a)"
    and "0 < SEG_LEN_SECONDS env"
  shows "(duration_s (length a) \<le> real_of_int (CHUNK_THRESHOLD_S env) \<longrightarrow>
            fst (transcribe_file env w p)
              = (case whisper env (Whisper_input (next_uuid w)) a of
                   Inl e \<Rightarrow> Inl e
                 | Inr t \<Rightarrow> Inr (single_summary env (length a) @ nl2 @ strip t)))
       \<and> (real_of_int (CHUNK_THRESHOLD_S env) < duration_s (length a) \<longrightarrow>
            fst (transcribe_file env w p)
              = Inr (chunked_summary env n (length a) @ nl2
                     @ str_join nl2 (filter (\<lambda>t. t \<noteq> [])
                         (map (\<lambda>k. chunk_text env (Suc k) (chunk_path env (next_uuid w) k)
                                        (window a seg_len_ms k)) [0..<n])))
            \<and> (\<exists>ps w'. split_audio_to_files env (snd (ensure_wav_copy env w p))
                            (Whisper_input (next_uuid w)) (SEG_LEN_SECONDS env) = (Inr ps, w')
                  \<and> length ps = n
                  \<and> (\<forall>k<n. fs w' (ps ! k) = Some (Audio (window a seg_len_ms k))
                            \<and> length (window a seg_len_ms k)
                                = min (nat seg_len_ms) (length a - k * nat seg_len_ms)
                            \<and> 0 < length (window a seg_len_ms k)
                            \<and> (Suc k < n \<longrightarrow> length (window a seg_len_ms k) = nat seg_len_ms))))"
proof (intro conjI impI)
  have wr: "write_error env q = None" for q using assms(3) by simp
  show "fst (transcribe_file env w p)
      = (case whisper env (Whisper_input (next_uuid w)) a of
           Inl e \<Rightarrow> Inl e
         | Inr t \<Rightarrow> Inr (single_summary env (length a) @ nl2 @ strip t))"
    if "duration_s (length a) \<le> real_of_int (CHUNK_THRESHOLD_S env)"
    using wr assms(4) that by (rule transcribe_file_single)
  show "fst (transcribe_file env w p)
      = Inr (chunked_summary env n (length a) @ nl2
             @ str_join nl2 (filter (\<lambda>t. t \<noteq> [])
                 (map (\<lambda>k. chunk_text env (Suc k) (chunk_path env (next_uuid w) k)
                                (window a seg_len_ms k)) [0..<n])))"
    if "real_of_int (CHUNK_THRESHOLD_S env) < duration_s (length a)"
    unfolding n_def seg_len_ms_def
    using wr assms(4) assms(5) that by (rule transcribe_file_chunked)
  show "\<exists>ps w'. split_audio_to_files env (snd (ensure_wav_copy env w p))
                    (Whisper_input (next_uuid w)) (SEG_LEN_SECONDS env) = (Inr ps, w')
          \<and> length ps = n
          \<and> (\<forall>k<n. fs w' (ps ! k) = Some (Audio (window a seg_len_ms k))
                    \<and> length (window a seg_len_ms k)
                        = min (nat seg_len_ms) (length a - k * nat seg_len_ms)
                    \<and> 0 < length (window a seg_len_ms k)
                    \<and> (Suc k < n \<longrightarrow> length (window a seg_len_ms k) = nat seg_len_ms))"
  proof -
    define w1 where "w1 = snd (ensure_wav_copy env w p)"
    have f1: "fs w1 (Whisper_input (next_uuid w)) = Some (Audio a)"
      by (simp add: w1_def ensure_wav_copy_ok [OF wr assms(4)])
    obtain ps w' where sp: "split_audio_to_files env w1 (Whisper_input (next_uuid w))
          (SEG_LEN_SECONDS env) = (Inr ps, w')"
      and len: "length ps = n"
      and nth: "\<And>k. k < length ps \<Longrightarrow> ps ! k = Whisper_chunk (now env) (next_uuid w1 + k) k
            \<and> fs w' (ps ! k) = Some (Audio (window a seg_len_ms k))"
      unfolding n_def seg_len_ms_def
      using split_audio_to_files_ok [OF wr f1 assms(5)] by blast
    have L: "0 < seg_len_ms" using assms(5) by (simp add: seg_len_ms_def)
    have "fs w' (ps ! k) = Some (Audio (window a seg_len_ms k))
        \<and> length (window a seg_len_ms k) = min (nat seg_len_ms) (length a - k * nat seg_len_ms)
        \<and> 0 < length (window a seg_len_ms k)
        \<and> (Suc k < n \<longrightarrow> length (window a seg_len_ms k) = nat seg_len_ms)"
      if kn: "k < n" for k
    proof -
      have "k < nat \<lceil>duration_s (length a) / real_of_int (SEG_LEN_SECONDS env)\<rceil>"
        using kn by (simp add: n_def)
      note wl = window_lengths [OF assms(5) this]
      have A: "fs w' (ps ! k) = Some (Audio (window a seg_len_ms k))"
        using nth [of k, THEN conjunct2] kn len by (simp only:)
      have B: "length (window a seg_len_ms k)
          = min (nat seg_len_ms) (length a - k * nat seg_len_ms)"
        by (rule length_window)
      have C: "0 < length (window a seg_len_ms k)"
        unfolding seg_len_ms_def using wl by (rule conjunct1)
      have D: "Suc k < n \<longrightarrow> length (window a seg_len_ms k) = nat seg_len_ms"
        unfolding n_def seg_len_ms_def using wl by (rule conjunct2)
      show ?thesis using A B C D by (intro conjI)
    qed
    then show ?thesis using sp len unfolding w1_def by blast
  qed
qed

text \<open>
  The theorem at a recording of three milliseconds (single pass) and at one of 90 seconds
  (five segments), with the default configuration.
\<close>

theorem transcribe_file_branch_witness:
  "(\<forall>q. write_error env0 q = None)
   \<and> 0 < SEG_LEN_SECONDS env0
   \<and> fs world_recording (Path ''in.mp3'') = Some (Audio [1, 2, 3])
   \<and> duration_s (length [1, 2, 3 :: nat]) \<le> real_of_int (CHUNK_THRESHOLD_S env0)
   \<and> fst (transcribe_file env0 world_recording (Path ''in.mp3''))
        = Inr (single_summary env0 3 @ nl2 @ ''hello'')
   \<and> fs world_ninety (Path ''in.mp3'') = Some (Audio (replicate 90000 0))
   \<and> real_of_int (CHUNK_THRESHOLD_S env0) < duration_s (length (replicate 90000 (0 :: nat)))
   \<and> nat \<lceil>duration_s (length (replicate 90000 (0 :: nat))) / real_of_int (SEG_LEN_SECONDS env0)\<rceil> = 5
   \<and> fst (transcribe_file env0 world_ninety (Path ''in.mp3''))
        = Inr (chunked_summary env0 5 90000 @ nl2
               @ str_join nl2 [''hello'', ''hello'', ''hello'', ''hello'', ''hello''])"
proof -
  have wr: "\<forall>q. write_error env0 q = None" by (simp add: env0_def)
  have sg: "0 < SEG_LEN_SECONDS env0" by (simp add: env0_def)
  have f3: "fs world_recording (Path ''in.mp3'') = Some (Audio [1, 2, 3])"
    by (simp add: world_recording_def)
  have d3: "duration_s (length [1, 2, 3 :: nat]) \<le> real_of_int (CHUNK_THRESHOLD_S env0)"
    by (simp add: duration_s_def env0_def)
  have f90: "fs world_ninety (Path ''in.mp3'') = Some (Audio (replicate 90000 0))"
    by (simp add: world_ninety_def)
  have d90: "real_of_int (CHUNK_THRESHOLD_S env0) < duration_s (length (replicate 90000 (0 :: nat)))"
    by (simp add: duration_s_def env0_def)
  have n90: "nat \<lceil>duration_s (length (replicate 90000 (0 :: nat))) / real_of_int (SEG_LEN_SECONDS env0)\<rceil> = 5"
    by (simp add: duration_s_def env0_def)
  have st: "strip ''hello'' = ''hello''" by (simp add: strip_def is_space_def)
  have w0: "whisper env0 = (\<lambda>p a. Inr ''hello'')" by (simp add: env0_def)
  have ct: "chunk_text env0 i q c = ''hello''" for i q c
    by (simp add: chunk_text_def w0 st)
  have u5: "[0..<5] = [0, 1, 2, 3, 4]" by (simp add: upt_rec)
  have l3: "length [1, 2, 3 :: nat] = 3" by simp
  have d3': "duration_s 3 \<le> real_of_int (CHUNK_THRESHOLD_S env0)"
    by (simp add: duration_s_def env0_def)
  have r3: "fst (transcribe_file env0 world_recording (Path ''in.mp3''))
        = Inr (single_summary env0 3 @ nl2 @ ''hello'')"
    using transcribe_file_branch [OF wr f3 sg, unfolded l3] d3' by (simp add: w0 st)
  have r90: "fst (transcribe_file env0 world_ninety (Path ''in.mp3''))
        = Inr (chunked_summary env0 5 90000 @ nl2
               @ str_join nl2 [''hello'', ''hello'', ''hello'', ''hello'', ''hello''])"
    using transcribe_file_branch [OF wr f90 sg] d90 n90 by (simp add: ct u5)
  show ?thesis
    using wr sg f3 d3 r3 f90 d90 n90 r90 by (intro conjI)
qed

section \<open>Ninety seconds\<close>

text \<open>
  C8.  A stored recording of 90 seconds, with \<open>SEG_LEN_SECONDS = 20\<close> and
  \<open>CHUNK_THRESHOLD_S = 40\<close>, where the file system accepts the writes: the split of the
  working file yields five files, which hold 20, 20, 20, 20 and 10 seconds, and the transcript
  begins with the header \<open>(Chunked \<close>, an em dash, \<open> 5 chunks, original duration 90.0s)\<close>,
  which the texts of the five segments follow in order.
\<close>

theorem ninety_seconds_five_segments:
  assumes "\<forall>q. write_error env q = None"
    and "fs w p = Some (Audio a)"
    and "duration_s (length a) = 90"
    and "SEG_LEN_SECONDS env = 20"
    and "CHUNK_THRESHOLD_S env = 40"
  shows "(\<exists>ps w'. split_audio_to_files env (snd (ensure_wav_copy env w p))
                     (Whisper_input (next_uuid w)) (SEG_LEN_SECONDS env) = (Inr ps, w')
            \<and> map (\<lambda>q. map_option duration_s (stored_length w' q)) ps
                = [Some 20, Some 20, Some 20, Some 20, Some 10])
       \<and> fst (transcribe_file env w p)
           = Inr (''(Chunked '' @ em_dash @ '' 5 chunks, original duration 90.0s)'' @ nl2
                  @ str_join nl2 (filter (\<lambda>t. t \<noteq> [])
                      (map (\<lambda>k. chunk_text env (Suc k) (chunk_path env (next_uuid w) k)
                                     (window a 20000 k)) [0, 1, 2, 3, 4])))"
proof -
  have wr: "write_error env q = None" for q using assms(1) by simp
  have la: "length a = 90000" using assms(3) by (simp add: duration_s_def)
  have sg: "0 < SEG_LEN_SECONDS env" using assms(4) by simp
  have th: "real_of_int (CHUNK_THRESHOLD_S env) < duration_s (length a)"
    using assms(3) assms(5) by simp
  have n5: "nat \<lceil>duration_s (length a) / real_of_int (SEG_LEN_SECONDS env)\<rceil> = 5"
    using assms(3) assms(4) by simp
  have u5: "[0..<5] = [0, 1, 2, 3, 4]" by (simp add: upt_rec)
  have s5: "str_nat 5 = ''5''" "str_nat 90 = ''90''" "str_nat 0 = ''0''" by code_simp+
  have hd: "chunked_summary env 5 (length a)
      = ''(Chunked '' @ em_dash @ '' 5 chunks, original duration 90.0s)''"
    by (simp add: chunked_summary_def format_1f_def la s5)
  have t: "fst (transcribe_file env w p)
      = Inr (''(Chunked '' @ em_dash @ '' 5 chunks, original duration 90.0s)'' @ nl2
             @ str_join nl2 (filter (\<lambda>t. t \<noteq> [])
                 (map (\<lambda>k. chunk_text env (Suc k) (chunk_path env (next_uuid w) k)
                                (window a 20000 k)) [0, 1, 2, 3, 4])))"
    using transcribe_file_chunked [OF wr assms(2) sg th] unfolding n5 hd u5
    by (simp only: assms(4)) simp
  define w1 where "w1 = snd (ensure_wav_copy env w p)"
  have f1: "fs w1 (Whisper_input (next_uuid w)) = Some (Audio a)"
    by (simp add: w1_def ensure_wav_copy_ok [OF wr assms(2)])
  obtain ps w' where sp: "split_audio_to_files env w1 (Whisper_input (next_uuid w))
        (SEG_LEN_SECONDS env) = (Inr ps, w')"
    and len: "length ps = 5"
    and nth: "\<And>k. k < length ps \<Longrightarrow>
        fs w' (ps ! k) = Some (Audio (window a (SEG_LEN_SECONDS env * 1000) k))"
    using split_audio_to_files_ok [OF wr f1 sg] unfolding n5 by blast
  have d: "map_option duration_s (stored_length w' (ps ! k))
      = Some (duration_s (min 20000 (90000 - k * 20000)))" if "k < 5" for k
    using nth [of k] that len by (simp add: stored_length_def length_window assms(4) la)
  have "map (\<lambda>q. map_option duration_s (stored_length w' q)) ps
      = map (\<lambda>q. map_option duration_s (stored_length w' q)) (map ((!) ps) [0..<length ps])"
    by (simp only: map_nth)
  also have "\<dots> = map (\<lambda>k. map_option duration_s (stored_length w' (ps ! k))) [0..<length ps]"
    by (simp only: map_map comp_def)
  also have "\<dots> = [Some 20, Some 20, Some 20, Some 20, Some 10]"
    by (simp add: len u5 d duration_s_def)
  finally have m: "map (\<lambda>q. map_option duration_s (stored_length w' q)) ps
      = [Some 20, Some 20, Some 20, Some 20, Some 10]" .
  have "split_audio_to_files env (snd (ensure_wav_copy env w p))
          (Whisper_input (next_uuid w)) (SEG_LEN_SECONDS env) = (Inr ps, w')
      \<and> map (\<lambda>q. map_option duration_s (stored_length w' q)) ps
          = [Some 20, Some 20, Some 20, Some 20, Some 10]"
    using sp m unfolding w1_def by (rule conjI)
  then have "\<exists>ps w'. split_audio_to_files env (snd (ensure_wav_copy env w p))
          (Whisper_input (next_uuid w)) (SEG_LEN_SECONDS env) = (Inr ps, w')
      \<and> map (\<lambda>q. map_option duration_s (stored_length w' q)) ps
          = [Some 20, Some 20, Some 20, Some 20, Some 10]"
    by (intro exI)
  then show ?thesis using t by (rule conjI)
qed

text \<open>The theorem at a recording of 90 seconds with the default configuration.\<close>

theorem ninety_seconds_five_segments_witness:
  "(\<forall>q. write_error env0 q = None)
   \<and> fs world_ninety (Path ''in.mp3'') = Some (Audio (replicate 90000 0))
   \<and> duration_s (length (replicate 90000 (0 :: nat))) = 90
   \<and> SEG_LEN_SECONDS env0 = 20
   \<and> CHUNK_THRESHOLD_S env0 = 40
   \<and> (\<exists>ps w'. split_audio_to_files env0 (snd (ensure_wav_copy env0 world_ninety (Path ''in.mp3'')))
                  (Whisper_input 0) 20 = (Inr ps, w')
         \<and> map (\<lambda>q. map_option duration_s (stored_length w' q)) ps
             = [Some 20, Some 20, Some 20, Some 20, Some 10])
   \<and> fst (transcribe_file env0 world_ninety (Path ''in.mp3''))
       = Inr (''(Chunked '' @ em_dash @ '' 5 chunks, original duration 90.0s)'' @ nl2
              @ ''hello'' @ nl2 @ ''hello'' @ nl2 @ ''hello'' @ nl2 @ ''hello'' @ nl2 @ ''hello'')"
proof -
  have wr: "\<forall>q. write_error env0 q = None" by (simp add: env0_def)
  have f: "fs world_ninety (Path ''in.mp3'') = Some (Audio (replicate 90000 0))"
    by (simp add: world_ninety_def)
  have d: "duration_s (length (replicate 90000 (0 :: nat))) = 90" by (simp add: duration_s_def)
  have sg: "SEG_LEN_SECONDS env0 = 20" by (simp add: env0_def)
  have th: "CHUNK_THRESHOLD_S env0 = 40" by (simp add: env0_def)
  have u: "next_uuid world_ninety = 0" by (simp add: world_ninety_def world0_def)
  have st: "strip ''hello'' = ''hello''" by (simp add: strip_def is_space_def)
  have ct: "chunk_text env0 i q c = ''hello''" for i q c
    by (simp add: chunk_text_def env0_def st)
  note T = ninety_seconds_five_segments [OF wr f d sg th]
  have a: "\<exists>ps w'. split_audio_to_files env0 (snd (ensure_wav_copy env0 world_ninety (Path ''in.mp3'')))
                  (Whisper_input 0) 20 = (Inr ps, w')
         \<and> map (\<lambda>q. map_option duration_s (stored_length w' q)) ps
             = [Some 20, Some 20, Some 20, Some 20, Some 10]"
    using T [THEN conjunct1] by (simp add: u sg)
  have b: "fst (transcribe_file env0 world_ninety (Path ''in.mp3''))
       = Inr (''(Chunked '' @ em_dash @ '' 5 chunks, original duration 90.0s)'' @ nl2
              @ ''hello'' @ nl2 @ ''hello'' @ nl2 @ ''hello'' @ nl2 @ ''hello'' @ nl2 @ ''hello'')"
    using T [THEN conjunct2] by (simp add: ct)
  show ?thesis using wr f d sg th a b by (intro conjI)
qed

section \<open>One failing segment\<close>





end
